theory Spec2Isabelle
  imports Main "HOL-Library.Sublist" "HOL-Library.Multiset"
begin

section \<open>Configuration\<close>

text \<open>The module-level constants of \<^verbatim>\<open>scrape_auction.py\<close>.\<close>

definition REFRESH_INTERVAL :: nat where
  "REFRESH_INTERVAL = 10"

definition MAX_LOGS :: nat where
  "MAX_LOGS = 200"

section \<open>Strings\<close>

text \<open>
  Python's \<^verbatim>\<open>str\<close> is a \<open>string\<close>, a character standing for a code point (the
  characters of HOL reach code point 255). The operator \<^verbatim>\<open>needle in haystack\<close> on
  strings is contiguous containment, \<open>sublist needle haystack\<close>.

  \<^verbatim>\<open>str.lower()\<close> belongs to the Python runtime, not to the repository. It is a
  parameter \<open>lw\<close> of every definition that calls it, so what is proved holds for
  Python's own \<^verbatim>\<open>lower\<close> as for any other function. To run the program on concrete
  texts there is a reference version, \<open>ref_lower\<close>: it lowers every cased letter up to
  code point 255 as Python does (\<open>A\<close> to \<open>Z\<close>, and the letters from \<open>0xC0\<close> to \<open>0xDE\<close>
  but the multiplication sign \<open>0xD7\<close>) and leaves the other characters alone.
\<close>

definition upper_letters :: string where
  "upper_letters =
     ''ABCDEFGHIJKLMNOPQRSTUVWXYZ'' @
       [CHR 0xC0, CHR 0xC1, CHR 0xC2, CHR 0xC3, CHR 0xC4, CHR 0xC5, CHR 0xC6, CHR 0xC7,
        CHR 0xC8, CHR 0xC9, CHR 0xCA, CHR 0xCB, CHR 0xCC, CHR 0xCD, CHR 0xCE, CHR 0xCF,
        CHR 0xD0, CHR 0xD1, CHR 0xD2, CHR 0xD3, CHR 0xD4, CHR 0xD5, CHR 0xD6, CHR 0xD8,
        CHR 0xD9, CHR 0xDA, CHR 0xDB, CHR 0xDC, CHR 0xDD, CHR 0xDE]"

definition lower_letters :: string where
  "lower_letters =
     ''abcdefghijklmnopqrstuvwxyz'' @
       [CHR 0xE0, CHR 0xE1, CHR 0xE2, CHR 0xE3, CHR 0xE4, CHR 0xE5, CHR 0xE6, CHR 0xE7,
        CHR 0xE8, CHR 0xE9, CHR 0xEA, CHR 0xEB, CHR 0xEC, CHR 0xED, CHR 0xEE, CHR 0xEF,
        CHR 0xF0, CHR 0xF1, CHR 0xF2, CHR 0xF3, CHR 0xF4, CHR 0xF5, CHR 0xF6, CHR 0xF8,
        CHR 0xF9, CHR 0xFA, CHR 0xFB, CHR 0xFC, CHR 0xFD, CHR 0xFE]"

definition lower_char :: "char \<Rightarrow> char" where
  "lower_char c =
     (case map_of (zip upper_letters lower_letters) c of None \<Rightarrow> c | Some l \<Rightarrow> l)"

definition ref_lower :: "string \<Rightarrow> string" where
  "ref_lower s = map lower_char s"

section \<open>Records of the crawl\<close>

text \<open>
  One scraped card: the dict built at lines 149-156. Every field is \<^verbatim>\<open>None\<close> or a
  string.
\<close>

record item =
  title :: "string option"
  picture_url :: "string option"
  price :: "string option"
  remaining :: "string option"
  item_value :: "string option"
  bids :: "string option"

section \<open>FilterEngine: \<^verbatim>\<open>apply_filters_to_items\<close>\<close>

text \<open>
  \<^verbatim>\<open>active_filters = [(f, f.lower()) for f in filters if f]\<close>: the truthy (non-empty)
  keywords, each with its lower-cased form.
\<close>

definition active_filters ::
  "(string \<Rightarrow> string) \<Rightarrow> string list \<Rightarrow> (string \<times> string) list" where
  "active_filters lw fs = map (\<lambda>f. (f, lw f)) (filter (\<lambda>f. f \<noteq> []) fs)"

text \<open>
  The inner loop (lines 181-185): \<^verbatim>\<open>matched\<close> stays \<^verbatim>\<open>None\<close> until the first term
  contained in the lower-cased title, then the loop breaks with that term's original
  spelling.
\<close>

fun first_match :: "(string \<times> string) list \<Rightarrow> string \<Rightarrow> string option" where
  "first_match [] title_lower = None"
| "first_match ((original, term) # rest) title_lower =
     (if sublist term title_lower then Some original else first_match rest title_lower)"

text \<open>\<^verbatim>\<open>item.get('title') or ''\<close>: a missing title reads as the empty string.\<close>

definition title_or_empty :: "item \<Rightarrow> string" where
  "title_or_empty it = (case title it of None \<Rightarrow> [] | Some t \<Rightarrow> t)"

text \<open>
  The outer loop (lines 178-189) with its two accumulators. \<^verbatim>\<open>if matched:\<close> tests
  truthiness: \<^verbatim>\<open>None\<close> and the empty string are both false.
\<close>

fun filter_loop ::
  "(string \<Rightarrow> string) \<Rightarrow> (string \<times> string) list \<Rightarrow> item list \<Rightarrow> item list
     \<Rightarrow> (item \<times> string) list \<Rightarrow> item list \<times> (item \<times> string) list" where
  "filter_loop lw af [] filtered_items filtered_out = (filtered_items, filtered_out)"
| "filter_loop lw af (it # items) filtered_items filtered_out =
     (let title_lower = lw (title_or_empty it) in
      case first_match af title_lower of
        None \<Rightarrow> filter_loop lw af items (filtered_items @ [it]) filtered_out
      | Some matched \<Rightarrow>
          if matched \<noteq> []
          then filter_loop lw af items filtered_items (filtered_out @ [(it, matched)])
          else filter_loop lw af items (filtered_items @ [it]) filtered_out)"

text \<open>
  \<^verbatim>\<open>apply_filters_to_items(items)\<close>, with the runtime's \<^verbatim>\<open>lower\<close> and the global
  \<^verbatim>\<open>filters\<close> passed as arguments. With no active filter the input list itself is
  returned.
\<close>

definition apply_filters_to_items ::
  "(string \<Rightarrow> string) \<Rightarrow> string list \<Rightarrow> item list \<Rightarrow> item list \<times> (item \<times> string) list"
  where
  "apply_filters_to_items lw filters items =
     (let af = active_filters lw filters in
      if af = [] then (items, []) else filter_loop lw af items [] [])"

text \<open>
  Keyword \<open>f\<close> matches a record: \<open>f\<close> is active (non-empty) and its lower-cased form
  is contained in the record's lower-cased title. This is the test of line 183 for one
  keyword, named so that the properties below can speak of it.
\<close>

definition term_matches :: "(string \<Rightarrow> string) \<Rightarrow> item \<Rightarrow> string \<Rightarrow> bool" where
  "term_matches lw it f = (f \<noteq> [] \<and> sublist (lw f) (lw (title_or_empty it)))"

section \<open>Floating point numbers\<close>

text \<open>
  The program parses, adds and formats Python floats (IEEE 754 binary64). These
  operations belong to the Python runtime, not to the repository, and are taken as
  parameters: \<open>float_of_str\<close> is \<^verbatim>\<open>float(s)\<close> with \<open>None\<close> for its \<^verbatim>\<open>ValueError\<close>,
  \<open>float_zero\<close> is \<^verbatim>\<open>0.0\<close>, \<open>float_add\<close> is \<^verbatim>\<open>+\<close>, \<open>format_money\<close> is the format
  spec \<^verbatim>\<open>,.2f\<close> and \<open>format_signed\<close> is \<^verbatim>\<open>+.2f\<close>.
\<close>

record 'f float_ops =
  float_of_str :: "string \<Rightarrow> 'f option"
  float_zero :: 'f
  float_add :: "'f \<Rightarrow> 'f \<Rightarrow> 'f"
  format_money :: "'f \<Rightarrow> string"
  format_signed :: "'f \<Rightarrow> string"

subsection \<open>A reference runtime\<close>

text \<open>
  To run the program on concrete inputs the parameters need values. The reference
  runtime computes with exact decimal numbers \<open>(m, e)\<close>, standing for \<open>m / 10 ^ e\<close>. It
  reads plain decimal numerals (a sign, digits, a point) and rejects every other text;
  it adds exactly; it formats with two decimals, rounding half to even. It is not
  Python's \<^verbatim>\<open>float\<close>: that one also reads surrounding white space, exponents,
  underscores between digits, \<^verbatim>\<open>inf\<close> and \<^verbatim>\<open>nan\<close>, and it adds and formats the
  nearest binary64 values, which can round another way. The general statements below
  hold for every runtime \<open>fo\<close>; the reference runtime appears in examples only, and
  these use texts of the plain form and values that binary64 represents exactly (such
  as 100, 12.5 and 5), on which it computes what Python computes.
\<close>

type_synonym dec = "int \<times> nat"

definition digit_val :: "char \<Rightarrow> nat option" where
  "digit_val c = map_of (zip ''0123456789'' [0, 1, 2, 3, 4, 5, 6, 7, 8, 9]) c"

definition digit_char :: "nat \<Rightarrow> char" where
  "digit_char d = ''0123456789'' ! d"

definition nat_of_digits :: "string \<Rightarrow> nat" where
  "nat_of_digits ds =
     foldl (\<lambda>a c. 10 * a + (case digit_val c of None \<Rightarrow> 0 | Some d \<Rightarrow> d)) 0 ds"

fun digits_of_nat :: "nat \<Rightarrow> string" where
  "digits_of_nat n =
     (if n < 10 then [digit_char n] else digits_of_nat (n div 10) @ [digit_char (n mod 10)])"

declare digits_of_nat.simps [simp del]

text \<open>Thousands separators, on the digits in reverse order.\<close>

fun group3 :: "string \<Rightarrow> string" where
  "group3 (a # b # c # d # rest) = a # b # c # CHR '','' # group3 (d # rest)"
| "group3 ds = ds"

definition dec_parse :: "string \<Rightarrow> dec option" where
  "dec_parse s =
     (let (neg, body) =
            (case s of
               [] \<Rightarrow> (False, s)
             | c # r \<Rightarrow> if c = CHR ''-'' then (True, r)
                        else if c = CHR ''+'' then (False, r) else (False, s));
          ip = takeWhile (\<lambda>c. digit_val c \<noteq> None) body;
          rest = dropWhile (\<lambda>c. digit_val c \<noteq> None) body;
          sg = (if neg then - 1 else 1 :: int)
      in case rest of
           [] \<Rightarrow> if ip = [] then None else Some (sg * int (nat_of_digits ip), 0)
         | c # fp \<Rightarrow>
             if c = CHR ''.'' \<and> list_all (\<lambda>c. digit_val c \<noteq> None) fp \<and> (ip \<noteq> [] \<or> fp \<noteq> [])
             then Some (sg * int (nat_of_digits (ip @ fp)), length fp)
             else None)"

definition dec_add :: "dec \<Rightarrow> dec \<Rightarrow> dec" where
  "dec_add x y =
     (let e = max (snd x) (snd y)
      in (fst x * 10 ^ (e - snd x) + fst y * 10 ^ (e - snd y), e))"

definition round_half_even :: "nat \<Rightarrow> nat \<Rightarrow> nat" where
  "round_half_even n d =
     (let q = n div d; r = n mod d
      in if 2 * r < d then q else if d < 2 * r then q + 1 else if even q then q else q + 1)"

text \<open>The absolute value in hundredths, rounded.\<close>

definition dec_cents :: "dec \<Rightarrow> nat" where
  "dec_cents x = round_half_even (nat \<bar>fst x\<bar> * 100) (10 ^ snd x)"

definition two_digits :: "nat \<Rightarrow> string" where
  "two_digits n = [digit_char (n div 10), digit_char (n mod 10)]"

definition dec_format_money :: "dec \<Rightarrow> string" where
  "dec_format_money x =
     (let c = dec_cents x
      in (if fst x < 0 then ''-'' else []) @ rev (group3 (rev (digits_of_nat (c div 100))))
           @ ''.'' @ two_digits (c mod 100))"

definition dec_format_signed :: "dec \<Rightarrow> string" where
  "dec_format_signed x =
     (let c = dec_cents x
      in (if fst x < 0 then ''-'' else ''+'') @ digits_of_nat (c div 100)
           @ ''.'' @ two_digits (c mod 100))"

definition ref_float :: "dec float_ops" where
  "ref_float =
     \<lparr>float_of_str = dec_parse, float_zero = (0, 0), float_add = dec_add,
      format_money = dec_format_money, format_signed = dec_format_signed\<rparr>"

section \<open>Shared state\<close>

text \<open>
  Log lines. Each constructor stands for one f-string or literal passed to
  \<^verbatim>\<open>add_log\<close>; its arguments are the values the source interpolates.
\<close>

datatype log_message =
    Msg_starting
  | Msg_error_fetching string string
  | Msg_found string
  | Msg_collected nat
  | Msg_begin_cycle
  | Msg_filtered_item string string
  | Msg_filtered_count nat
  | Msg_error_total string
  | Msg_completed nat
  | Msg_saved nat
  | Msg_total string
  | Msg_adjustment string
  | Msg_filters "string list"
  | Msg_paused
  | Msg_resumed
  | Msg_manual_refresh
  | Msg_stopped

record log_entry =
  timestamp :: nat
  message :: log_message

text \<open>The \<^verbatim>\<open>status\<close> dict (lines 32-36).\<close>

record status =
  next_refresh_in :: "nat option"
  last_total :: "string option"
  last_refresh :: "nat option"

text \<open>What \<^verbatim>\<open>get_status_snapshot\<close> returns: the status dict and four more keys.\<close>

record 'f snapshot =
  snap_status :: status
  snap_refresh_paused :: bool
  snap_manual_adjustment :: 'f
  snap_filters :: "string list"
  snap_refresh_interval :: nat

text \<open>The payloads \<^verbatim>\<open>publish_event\<close> sends: \<^verbatim>\<open>{'type': ..., 'data': ...}\<close>.\<close>

datatype 'f event = Log_event log_entry | Status_event "'f snapshot"

text \<open>
  \<^verbatim>\<open>queue.Queue\<close> of the standard library: \<^verbatim>\<open>maxsize\<close> zero means no bound.
  \<^verbatim>\<open>put\<close> with a timeout raises \<^verbatim>\<open>Full\<close> when the queue has a bound and is still
  at it when the timeout ends; this model takes the queue as it is when \<^verbatim>\<open>put\<close> is
  called (a consumer that makes room during the wait is a consumer step before the call).
\<close>

record 'f queue =
  maxsize :: nat
  contents :: "'f event list"

datatype queue_error = Full

definition Queue :: "nat \<Rightarrow> 'f queue" where
  "Queue n = \<lparr>maxsize = n, contents = []\<rparr>"

definition full :: "'f queue \<Rightarrow> bool" where
  "full q = (0 < maxsize q \<and> maxsize q \<le> length (contents q))"

definition put :: "'f queue \<Rightarrow> 'f event \<Rightarrow> queue_error + 'f queue" where
  "put q x = (if full q then Inl Full else Inr (q\<lparr>contents := contents q @ [x]\<rparr>))"

text \<open>
  The module's globals. Queue objects live in \<open>queue_heap\<close> and are named by their
  index there; \<open>event_subscribers\<close> is the set of registered queues, kept as a list
  of indices without repetition. \<open>clock\<close> is the wall clock \<^verbatim>\<open>datetime.now\<close> reads.
\<close>

record 'f state =
  manual_adjustment :: 'f
  refresh_paused :: bool
  refresh_now :: bool
  log_entries :: "log_entry list"
  status :: status
  event_subscribers :: "nat list"
  queue_heap :: "'f queue list"
  filters :: "string list"
  clock :: nat

text \<open>The globals as the module initialises them (lines 24-42).\<close>

definition initial_state :: "'f float_ops \<Rightarrow> 'f state" where
  "initial_state fo =
     \<lparr>manual_adjustment = float_zero fo,
      refresh_paused = False,
      refresh_now = False,
      log_entries = [],
      status = \<lparr>next_refresh_in = Some REFRESH_INTERVAL, last_total = None, last_refresh = None\<rparr>,
      event_subscribers = [],
      queue_heap = [],
      filters = [],
      clock = 0\<rparr>"

section \<open>EventBus\<close>

text \<open>
  One turn of the loop of \<^verbatim>\<open>publish_event\<close> (lines 62-66): the exception of a failed
  \<^verbatim>\<open>put\<close> is swallowed and the loop goes on.
\<close>

definition deliver :: "'f event \<Rightarrow> 'f queue list \<Rightarrow> nat \<Rightarrow> 'f queue list" where
  "deliver payload heap q =
     (if q < length heap then
        (case put (heap ! q) payload of Inl e \<Rightarrow> heap | Inr q' \<Rightarrow> heap[q := q'])
      else heap)"

definition publish_event :: "'f event \<Rightarrow> 'f state \<Rightarrow> 'f state" where
  "publish_event payload s =
     s\<lparr>queue_heap := foldl (deliver payload) (queue_heap s) (event_subscribers s)\<rparr>"

definition subscribe_events :: "'f state \<Rightarrow> nat \<times> 'f state" where
  "subscribe_events s =
     (let q = length (queue_heap s) in
      (q, s\<lparr>queue_heap := queue_heap s @ [Queue 0],
            event_subscribers := List.insert q (event_subscribers s)\<rparr>))"

definition unsubscribe_events :: "nat \<Rightarrow> 'f state \<Rightarrow> 'f state" where
  "unsubscribe_events q s = s\<lparr>event_subscribers := removeAll q (event_subscribers s)\<rparr>"

section \<open>The log buffer: \<^verbatim>\<open>add_log\<close>\<close>

text \<open>
  \<^verbatim>\<open>log_entries.append(entry)\<close>, then \<^verbatim>\<open>pop(0)\<close> when the list is longer than
  \<open>MAX_LOGS\<close> (lines 93-95).
\<close>

definition append_capped :: "log_entry \<Rightarrow> log_entry list \<Rightarrow> log_entry list" where
  "append_capped entry entries =
     (let entries' = entries @ [entry] in
      if length entries' > MAX_LOGS then tl entries' else entries')"

definition add_log :: "log_message \<Rightarrow> 'f state \<Rightarrow> 'f state" where
  "add_log msg s =
     (let entry = \<lparr>timestamp = clock s, message = msg\<rparr> in
      publish_event (Log_event entry) (s\<lparr>log_entries := append_capped entry (log_entries s)\<rparr>))"

text \<open>A run of \<^verbatim>\<open>add_log\<close> calls, first message first.\<close>

definition add_logs :: "log_message list \<Rightarrow> 'f state \<Rightarrow> 'f state" where
  "add_logs msgs s = foldl (\<lambda>s' m. add_log m s') s msgs"

text \<open>
  The globals with the log buffer and every queue emptied: what logging and
  publishing leave alone.
\<close>

definition control_of :: "'f state \<Rightarrow> 'f state" where
  "control_of s =
     s\<lparr>log_entries := [], queue_heap := map (\<lambda>q. q\<lparr>contents := []\<rparr>) (queue_heap s)\<rparr>"

text \<open>
  The shape the bus has in every state the program reaches: the registry holds no
  queue twice, every registered queue exists, and every queue was made by
  \<^verbatim>\<open>Queue()\<close>, without a bound.
\<close>

definition wf_bus :: "'f state \<Rightarrow> bool" where
  "wf_bus s =
     (distinct (event_subscribers s)
      \<and> list_all (\<lambda>q. q < length (queue_heap s)) (event_subscribers s)
      \<and> list_all (\<lambda>q. maxsize q = 0) (queue_heap s))"

section \<open>The world outside the program\<close>

text \<open>The two addresses of lines 12-13.\<close>

definition URL :: string where
  "URL = ''https://www.32auctions.com/organizations/ORG_ID/auctions/AUCTION_ID?r=1&t=all''"

definition SUMMARY_URL :: string where
  "SUMMARY_URL = ''https://www.32auctions.com/FRIENDLY_AUCTION_PATH''"

text \<open>
  Exceptions the external calls raise: a failed request (\<^verbatim>\<open>session.get\<close> or
  \<^verbatim>\<open>raise_for_status\<close>), a failed file operation, the \<^verbatim>\<open>ValueError\<close> of \<^verbatim>\<open>float\<close>,
  an exception of the HTML parser or of a selector, and the \<^verbatim>\<open>ValueError\<close> of
  \<^verbatim>\<open>urljoin\<close> (raised for an \<^verbatim>\<open>href\<close> such as \<^verbatim>\<open>//[\<close>). \<open>exception_text\<close> is what
  \<^verbatim>\<open>{e}\<close> interpolates.
\<close>

datatype py_exception =
    Request_error string
  | OS_error string
  | Value_error
  | Parse_error string
  | Url_error string

definition exception_text :: "py_exception \<Rightarrow> string" where
  "exception_text e =
     (case e of
        Request_error m \<Rightarrow> m
      | OS_error m \<Rightarrow> m
      | Value_error \<Rightarrow> ''could not convert string to float''
      | Parse_error m \<Rightarrow> m
      | Url_error m \<Rightarrow> m)"

text \<open>
  What the program's selectors find in a fetched page: the item dicts of the cards
  (\<^verbatim>\<open>a.item\<close> elements that have a \<^verbatim>\<open>.card\<close>), the \<^verbatim>\<open>href\<close> of the pagination's next
  link, and the text of \<^verbatim>\<open>div.raised.amt\<close>. HTML parsing itself is not modelled;
  \<open>parse_error\<close> is the exception \<^verbatim>\<open>BeautifulSoup(response.text, 'html.parser')\<close> raises
  on the page, if it raises one (the other fields then mean nothing).
\<close>

record response =
  parse_error :: "py_exception option"
  listing :: "item list"
  next_href :: "string option"
  raised_amt :: "string option"

text \<open>The dict written to \<^verbatim>\<open>auction_items.json\<close> (lines 278-284).\<close>

record scrape_output =
  out_refreshed_at :: nat
  out_url :: string
  out_total_items :: nat
  out_total_raised :: string
  out_items :: "item list"

text \<open>
  The environment of a run: what a request to an address answers (an exception or a
  page), \<^verbatim>\<open>urllib.parse.urljoin\<close> (the joined address, or the exception it raises),
  the runtime's \<^verbatim>\<open>str.lower\<close>, and the outcome of opening and writing the artifact
  file (lines 285-286).
\<close>

record env =
  session_get :: "string \<Rightarrow> py_exception + response"
  urljoin :: "string \<Rightarrow> string \<Rightarrow> py_exception + string"
  str_lower :: "string \<Rightarrow> string"
  write_artifact :: "scrape_output \<Rightarrow> py_exception + unit"

section \<open>Crawler: \<^verbatim>\<open>fetch_auction_items\<close>\<close>

text \<open>
  The local variables of the pagination loop, with the globals it logs into.
  \<open>requests\<close> is not a variable of the source: it records the addresses passed to
  \<^verbatim>\<open>session.get\<close>, in order. \<open>raised\<close> is the exception that left the function, if
  one did: the \<^verbatim>\<open>try\<close> of lines 112-117 covers the request only, so an exception of
  the parser (line 118) or of \<^verbatim>\<open>urljoin\<close> (line 162) is not caught.
\<close>

record 'f crawl =
  crawl_items :: "item list"
  seen_pages :: "string set"
  requests :: "string list"
  crawl_state :: "'f state"
  raised :: "py_exception option"

type_synonym 'f callback = "log_message \<Rightarrow> 'f state \<Rightarrow> 'f state"

text \<open>\<^verbatim>\<open>if progress_cb: progress_cb(...)\<close>.\<close>

definition call_progress :: "'f callback option \<Rightarrow> log_message \<Rightarrow> 'f state \<Rightarrow> 'f state" where
  "call_progress progress_cb msg s = (case progress_cb of None \<Rightarrow> s | Some cb \<Rightarrow> cb msg s)"

text \<open>\<^verbatim>\<open>title[:60] if title else 'Untitled'\<close> (line 158).\<close>

definition found_title :: "item \<Rightarrow> string" where
  "found_title it =
     (case title it of
        None \<Rightarrow> ''Untitled''
      | Some t \<Rightarrow> if t = [] then ''Untitled'' else take 60 t)"

text \<open>The loop over the cards of one page (lines 120-158).\<close>

fun scan_cards :: "'f callback option \<Rightarrow> item list \<Rightarrow> 'f crawl \<Rightarrow> 'f crawl" where
  "scan_cards progress_cb [] c = c"
| "scan_cards progress_cb (it # rest) c =
     scan_cards progress_cb rest
       (c\<lparr>crawl_items := crawl_items c @ [it],
          crawl_state := call_progress progress_cb (Msg_found (found_title it)) (crawl_state c)\<rparr>)"

text \<open>
  Lines 160-164: the next address, or \<^verbatim>\<open>None\<close> without a link or with an empty one;
  \<^verbatim>\<open>urljoin\<close> may raise.
\<close>

definition next_page :: "env \<Rightarrow> string \<Rightarrow> response \<Rightarrow> py_exception + string option" where
  "next_page env u r =
     (case next_href r of
        None \<Rightarrow> Inr None
      | Some h \<Rightarrow>
          if h = [] then Inr None
          else (case urljoin env u h of Inl e \<Rightarrow> Inl e | Inr v \<Rightarrow> Inr (Some v)))"

text \<open>
  The \<^verbatim>\<open>while next_url and next_url not in seen_pages\<close> loop (lines 110-164). The
  loop may run forever when the site keeps producing new addresses, so it returns an
  option: \<open>None\<close> is not returning. A failed request is logged and breaks the loop;
  an exception of the parser or of \<^verbatim>\<open>urljoin\<close> ends the loop with \<open>raised\<close> set.
\<close>

partial_function (option) fetch_loop ::
  "env \<Rightarrow> 'f callback option \<Rightarrow> string option \<Rightarrow> 'f crawl \<Rightarrow> 'f crawl option" where
  "fetch_loop env progress_cb next_url c =
     (case next_url of
        None \<Rightarrow> Some c
      | Some u \<Rightarrow>
          if u = [] \<or> u \<in> seen_pages c then Some c
          else
            (let c1 = c\<lparr>seen_pages := insert u (seen_pages c), requests := requests c @ [u]\<rparr> in
             case session_get env u of
               Inl e \<Rightarrow>
                 Some (c1\<lparr>crawl_state :=
                   add_log (Msg_error_fetching u (exception_text e)) (crawl_state c1)\<rparr>)
             | Inr r \<Rightarrow>
                 (case parse_error r of
                    Some e \<Rightarrow> Some (c1\<lparr>raised := Some e\<rparr>)
                  | None \<Rightarrow>
                      (let c2 = scan_cards progress_cb (listing r) c1 in
                       case next_page env u r of
                         Inl e \<Rightarrow> Some (c2\<lparr>raised := Some e\<rparr>)
                       | Inr next_url' \<Rightarrow> fetch_loop env progress_cb next_url' c2))))"

text \<open>
  \<^verbatim>\<open>fetch_auction_items\<close>: the loop, then the closing progress line (lines 165-166)
  unless an exception has left the function.
\<close>

definition fetch_auction_items ::
  "env \<Rightarrow> string \<Rightarrow> 'f callback option \<Rightarrow> 'f state \<Rightarrow> 'f crawl option" where
  "fetch_auction_items env u progress_cb s =
     (case fetch_loop env progress_cb (Some u)
             \<lparr>crawl_items = [], seen_pages = {}, requests = [], crawl_state = s, raised = None\<rparr> of
        None \<Rightarrow> None
      | Some c \<Rightarrow>
          (case raised c of
             Some e \<Rightarrow> Some c
           | None \<Rightarrow>
               Some (c\<lparr>crawl_state :=
                 call_progress progress_cb (Msg_collected (length (crawl_items c)))
                   (crawl_state c)\<rparr>)))"

text \<open>
  An environment in which the crawl raises nothing: no page makes the parser raise and
  \<^verbatim>\<open>urljoin\<close> joins every pair.
\<close>

definition crawl_safe :: "env \<Rightarrow> bool" where
  "crawl_safe env =
     ((\<forall>u r. session_get env u = Inr r \<longrightarrow> parse_error r = None)
      \<and> (\<forall>b h. \<exists>v. urljoin env b h = Inr v))"

text \<open>
  What the loop keeps true of its variables: no address was requested twice, and the
  requested addresses are exactly the visited set.
\<close>

definition crawl_inv :: "'f crawl \<Rightarrow> bool" where
  "crawl_inv c = (distinct (requests c) \<and> set (requests c) = seen_pages c)"

section \<open>Totals: \<^verbatim>\<open>get_total_raised\<close> and the displayed total\<close>

text \<open>
  Lines 203-212: the text of the amount element, or \<^verbatim>\<open>None\<close> when the element is absent
  or when the request or the parser raised (the \<^verbatim>\<open>try\<close> covers both; the error is
  logged).
\<close>

definition get_total_raised :: "env \<Rightarrow> string \<Rightarrow> 'f state \<Rightarrow> string option \<times> 'f state" where
  "get_total_raised env summary_url s =
     (case session_get env summary_url of
        Inl e \<Rightarrow> (None, add_log (Msg_error_total (exception_text e)) s)
      | Inr r \<Rightarrow>
          (case parse_error r of
             Some e \<Rightarrow> (None, add_log (Msg_error_total (exception_text e)) s)
           | None \<Rightarrow> (raised_amt r, s)))"

text \<open>What \<^verbatim>\<open>get_total_raised(SUMMARY_URL)\<close> returns in an environment.\<close>

definition fetched_total :: "env \<Rightarrow> string option" where
  "fetched_total env =
     (case session_get env SUMMARY_URL of
        Inl e \<Rightarrow> None
      | Inr r \<Rightarrow> (case parse_error r of Some e \<Rightarrow> None | None \<Rightarrow> raised_amt r))"

text \<open>\<^verbatim>\<open>.replace('$','').replace(',','')\<close>.\<close>

definition strip_currency :: "string \<Rightarrow> string" where
  "strip_currency s = filter (\<lambda>c. c \<noteq> CHR '','') (filter (\<lambda>c. c \<noteq> CHR ''$'') s)"

text \<open>
  Line 273: \<^verbatim>\<open>float(...) if total_raised else 0.0\<close>. A falsy total (\<^verbatim>\<open>None\<close> or the empty
  string) is \<^verbatim>\<open>0.0\<close> and nothing is parsed; otherwise \<^verbatim>\<open>float\<close> may raise.
\<close>

definition parse_total :: "'f float_ops \<Rightarrow> string option \<Rightarrow> py_exception + 'f" where
  "parse_total fo total_raised =
     (case total_raised of
        None \<Rightarrow> Inr (float_zero fo)
      | Some t \<Rightarrow>
          if t = [] then Inr (float_zero fo)
          else (case float_of_str fo (strip_currency t) of
                  None \<Rightarrow> Inl Value_error
                | Some x \<Rightarrow> Inr x))"

text \<open>\<^verbatim>\<open>{total_raised}\<close> in an f-string.\<close>

definition str_of :: "string option \<Rightarrow> string" where
  "str_of v = (case v of None \<Rightarrow> ''None'' | Some t \<Rightarrow> t)"

text \<open>The \<^verbatim>\<open>except\<close> branch, line 277: \<^verbatim>\<open>f"{total_raised} (+{adj:+.2f})"\<close>.\<close>

definition fallback_display :: "'f float_ops \<Rightarrow> string option \<Rightarrow> 'f \<Rightarrow> string" where
  "fallback_display fo total_raised adj = str_of total_raised @ '' (+'' @ format_signed fo adj @ '')''"

text \<open>Lines 272-277.\<close>

definition total_raised_display :: "'f float_ops \<Rightarrow> string option \<Rightarrow> 'f \<Rightarrow> string" where
  "total_raised_display fo total_raised adj =
     (case parse_total fo total_raised of
        Inr tr_float \<Rightarrow> ''$'' @ format_money fo (float_add fo tr_float adj)
      | Inl e \<Rightarrow> fallback_display fo total_raised adj)"

section \<open>Status: \<^verbatim>\<open>get_status_snapshot\<close> and \<^verbatim>\<open>update_status\<close>\<close>

text \<open>The keyword arguments \<^verbatim>\<open>update_status\<close> is called with.\<close>

datatype kwarg = Next_refresh_in "nat option" | Last_total string | Last_refresh nat

definition set_key :: "status \<Rightarrow> kwarg \<Rightarrow> status" where
  "set_key st k =
     (case k of
        Next_refresh_in v \<Rightarrow> st\<lparr>next_refresh_in := v\<rparr>
      | Last_total v \<Rightarrow> st\<lparr>last_total := Some v\<rparr>
      | Last_refresh v \<Rightarrow> st\<lparr>last_refresh := Some v\<rparr>)"

definition get_status_snapshot :: "'f state \<Rightarrow> 'f snapshot" where
  "get_status_snapshot s =
     \<lparr>snap_status = status s, snap_refresh_paused = refresh_paused s,
      snap_manual_adjustment = manual_adjustment s, snap_filters = filters s,
      snap_refresh_interval = REFRESH_INTERVAL\<rparr>"

definition update_status :: "kwarg list \<Rightarrow> 'f state \<Rightarrow> 'f snapshot \<times> 'f state" where
  "update_status kwargs s =
     (let s1 = (if kwargs \<noteq> [] then s\<lparr>status := foldl set_key (status s) kwargs\<rparr> else s);
          snapshot = get_status_snapshot s1
      in (snapshot, publish_event (Status_event snapshot) s1))"

section \<open>ScrapeCycle: the body of the loop of \<^verbatim>\<open>main\<close>\<close>

text \<open>\<^verbatim>\<open>item.get('title') or 'Untitled'\<close> (line 264).\<close>

definition untitled :: "item \<Rightarrow> string" where
  "untitled it =
     (case title it of None \<Rightarrow> ''Untitled'' | Some t \<Rightarrow> if t = [] then ''Untitled'' else t)"

text \<open>Lines 263-267: one line per rejected record, then the count if any.\<close>

fun log_filtered_items :: "(item \<times> string) list \<Rightarrow> 'f state \<Rightarrow> 'f state" where
  "log_filtered_items [] s = s"
| "log_filtered_items ((it, term) # rest) s =
     log_filtered_items rest (add_log (Msg_filtered_item (untitled it) term) s)"

definition log_filtered :: "(item \<times> string) list \<Rightarrow> 'f state \<Rightarrow> 'f state" where
  "log_filtered filtered_out s =
     (let s1 = log_filtered_items filtered_out s
      in if filtered_out \<noteq> [] then add_log (Msg_filtered_count (length filtered_out)) s1 else s1)"

text \<open>
  A cycle ends normally, or an exception leaves it with the globals as they were at
  the raise.
\<close>

datatype 'f outcome = Completed "'f state" | Raised py_exception "'f state"

text \<open>Lines 287-296, after the artifact is written.\<close>

definition finish_cycle :: "nat \<Rightarrow> item list \<Rightarrow> string \<Rightarrow> 'f state \<Rightarrow> 'f state" where
  "finish_cycle start_time kept_items display s =
     (let end_time = clock s;
          s1 = add_log (Msg_completed (end_time - start_time)) s;
          s2 = add_log (Msg_saved (length kept_items)) s1;
          s3 = add_log (Msg_total display) s2
      in snd (update_status
                [Last_total display, Last_refresh end_time, Next_refresh_in (Some REFRESH_INTERVAL)]
                s3))"

text \<open>
  Lines 257-296. The totals fetch catches its exceptions itself and the crawl those of
  its requests; an exception that leaves the crawl, and one of the \<^verbatim>\<open>with open(...)\<close>
  block of lines 285-286, stand in no \<^verbatim>\<open>try\<close> but the outermost one of \<^verbatim>\<open>main\<close>, which
  catches \<^verbatim>\<open>KeyboardInterrupt\<close> only. \<open>None\<close>: the crawl does not end.
\<close>

definition run_cycle :: "env \<Rightarrow> 'f float_ops \<Rightarrow> 'f state \<Rightarrow> 'f outcome option" where
  "run_cycle env fo s0 =
     (let s1 = s0\<lparr>status := (status s0)\<lparr>next_refresh_in := Some 0\<rparr>\<rparr>;
          s2 = add_log Msg_begin_cycle s1;
          start_time = clock s2
      in case fetch_auction_items env URL (Some add_log) s2 of
           None \<Rightarrow> None
         | Some c \<Rightarrow>
             (case raised c of
                Some e \<Rightarrow> Some (Raised e (crawl_state c))
              | None \<Rightarrow>
             (let filtered =
                    apply_filters_to_items (str_lower env) (filters (crawl_state c))
                      (crawl_items c);
                  kept_items = fst filtered;
                  filtered_out = snd filtered;
                  s3 = log_filtered filtered_out (crawl_state c);
                  fetched = get_total_raised env SUMMARY_URL s3;
                  total_raised = fst fetched;
                  s4 = snd fetched;
                  adj = manual_adjustment s4;
                  display = total_raised_display fo total_raised adj;
                  out = \<lparr>out_refreshed_at = clock s4, out_url = URL,
                         out_total_items = length kept_items, out_total_raised = display,
                         out_items = kept_items\<rparr>
              in case write_artifact env out of
                   Inl e \<Rightarrow> Some (Raised e s4)
                 | Inr u \<Rightarrow> Some (Completed (finish_cycle start_time kept_items display s4)))))"

section \<open>Scheduler: the loop of \<^verbatim>\<open>main\<close>\<close>

text \<open>
  The scheduler thread, one step per block of the source that holds a lock (each such
  block is atomic towards the request handlers, which take the same locks). The
  program counter names the block that runs next:
  \<^item> \<open>Start\<close>: line 219;
  \<^item> \<open>Loop_head\<close>: lines 224-226, the poll of \<^verbatim>\<open>refresh_paused\<close>;
  \<^item> \<open>Paused_status\<close>, \<open>Paused_sleep\<close>: lines 227-228 and 229;
  \<^item> \<open>Check_now\<close>: lines 232-237, the poll of \<^verbatim>\<open>refresh_now\<close>;
  \<^item> \<open>Count_check_paused i\<close>: lines 239-242 with loop variable \<open>i\<close>;
  \<^item> \<open>Count_paused_break\<close>: lines 243-245;
  \<^item> \<open>Count_check_now i\<close>: lines 246-250;
  \<^item> \<open>Count_tick i\<close>: lines 251-253;
  \<^item> \<open>After_countdown\<close>: lines 254-255;
  \<^item> \<open>Run_cycle\<close>: lines 257-296, one cycle, taken as one step;
  \<^item> \<open>Hung\<close>: inside a cycle whose crawl never returns;
  \<^item> \<open>Stopped e\<close>: exception \<open>e\<close> has left \<^verbatim>\<open>main\<close>, the thread is gone.

  \<open>paused\<close> and \<open>do_refresh_now\<close> are the locals of \<^verbatim>\<open>main\<close>. \<open>cycles\<close> counts the
  cycles started and \<open>trigger_cycles\<close> those started with \<open>do_refresh_now\<close> set; the
  source has no such counters.
\<close>

datatype pc =
    Start
  | Loop_head
  | Paused_status
  | Paused_sleep
  | Check_now
  | Count_check_paused nat
  | Count_paused_break
  | Count_check_now nat
  | Count_tick nat
  | After_countdown
  | Run_cycle
  | Hung
  | Stopped py_exception

record 'f sched =
  pc :: pc
  paused :: bool
  do_refresh_now :: bool
  globals :: "'f state"
  cycles :: nat
  trigger_cycles :: nat

text \<open>\<^verbatim>\<open>time.sleep(n)\<close>: the clock moves on.\<close>

definition sleep :: "nat \<Rightarrow> 'f state \<Rightarrow> 'f state" where
  "sleep n s = s\<lparr>clock := clock s + n\<rparr>"

text \<open>\<^verbatim>\<open>status["next_refresh_in"] = v\<close>.\<close>

definition set_next_refresh_in :: "nat option \<Rightarrow> 'f state \<Rightarrow> 'f state" where
  "set_next_refresh_in v s = s\<lparr>status := (status s)\<lparr>next_refresh_in := v\<rparr>\<rparr>"

text \<open>
  \<^verbatim>\<open>for i in range(REFRESH_INTERVAL, 0, -1)\<close>: the turn with loop variable \<open>i\<close> runs
  when \<open>i\<close> is positive, else the loop is over.
\<close>

definition countdown_from :: "nat \<Rightarrow> pc" where
  "countdown_from i = (if 0 < i then Count_check_paused i else After_countdown)"

definition sched_step :: "env \<Rightarrow> 'f float_ops \<Rightarrow> 'f sched \<Rightarrow> 'f sched" where
  "sched_step env fo t =
     (let g = globals t in
      case pc t of
        Start \<Rightarrow> t\<lparr>pc := Loop_head, globals := add_log Msg_starting g\<rparr>
      | Loop_head \<Rightarrow>
          t\<lparr>paused := refresh_paused g,
            pc := (if refresh_paused g then Paused_status else Check_now)\<rparr>
      | Paused_status \<Rightarrow> t\<lparr>pc := Paused_sleep, globals := set_next_refresh_in None g\<rparr>
      | Paused_sleep \<Rightarrow> t\<lparr>pc := Loop_head, globals := sleep 1 g\<rparr>
      | Check_now \<Rightarrow>
          t\<lparr>do_refresh_now := refresh_now g,
            globals := (if refresh_now g then g\<lparr>refresh_now := False\<rparr> else g),
            pc := (if refresh_now g then Run_cycle else countdown_from REFRESH_INTERVAL)\<rparr>
      | Count_check_paused i \<Rightarrow>
          (let paused' = (if refresh_paused g then True else paused t)
           in t\<lparr>paused := paused',
                pc := (if paused' then Count_paused_break else Count_check_now i)\<rparr>)
      | Count_paused_break \<Rightarrow> t\<lparr>pc := After_countdown, globals := set_next_refresh_in None g\<rparr>
      | Count_check_now i \<Rightarrow>
          (if refresh_now g
           then t\<lparr>do_refresh_now := True, globals := g\<lparr>refresh_now := False\<rparr>,
                  pc := After_countdown\<rparr>
           else t\<lparr>pc := Count_tick i\<rparr>)
      | Count_tick i \<Rightarrow>
          t\<lparr>pc := countdown_from (i - 1), globals := sleep 1 (set_next_refresh_in (Some i) g)\<rparr>
      | After_countdown \<Rightarrow> t\<lparr>pc := (if paused t then Loop_head else Run_cycle)\<rparr>
      | Run_cycle \<Rightarrow>
          (let t' = t\<lparr>cycles := cycles t + 1,
                      trigger_cycles := trigger_cycles t + (if do_refresh_now t then 1 else 0)\<rparr>
           in case run_cycle env fo g of
                None \<Rightarrow> t'\<lparr>pc := Hung\<rparr>
              | Some (Raised e g') \<Rightarrow> t'\<lparr>pc := Stopped e, globals := g'\<rparr>
              | Some (Completed g') \<Rightarrow> t'\<lparr>pc := Loop_head, globals := g'\<rparr>)
      | Hung \<Rightarrow> t
      | Stopped e \<Rightarrow> t)"

section \<open>ControlSurface: the request handlers\<close>

text \<open>
  The handlers run in other threads. Each atomic piece of a handler is an action that
  may happen between any two steps of the scheduler; \<open>Sched\<close> is a step of the scheduler
  itself. \<open>Get q\<close> is the stream of lines 410-416 taking an event from its queue.
\<close>

datatype 'f action =
    Sched
  | Set_paused bool
  | Set_now
  | Update_status "kwarg list"
  | Add_log log_message
  | Set_adjustment 'f
  | Set_filters "string list"
  | Subscribe
  | Unsubscribe nat
  | Get nat

definition queue_get :: "nat \<Rightarrow> 'f state \<Rightarrow> 'f state" where
  "queue_get q s =
     (if q < length (queue_heap s) then
        (case contents (queue_heap s ! q) of
           [] \<Rightarrow> s
         | x # rest \<Rightarrow> s\<lparr>queue_heap := (queue_heap s)[q := (queue_heap s ! q)\<lparr>contents := rest\<rparr>]\<rparr>)
      else s)"

definition handler_step :: "'f action \<Rightarrow> 'f state \<Rightarrow> 'f state" where
  "handler_step a s =
     (case a of
        Sched \<Rightarrow> s
      | Set_paused b \<Rightarrow> s\<lparr>refresh_paused := b\<rparr>
      | Set_now \<Rightarrow> s\<lparr>refresh_now := True\<rparr>
      | Update_status kwargs \<Rightarrow> snd (update_status kwargs s)
      | Add_log msg \<Rightarrow> add_log msg s
      | Set_adjustment amt \<Rightarrow> s\<lparr>manual_adjustment := amt\<rparr>
      | Set_filters fs \<Rightarrow> s\<lparr>filters := fs\<rparr>
      | Subscribe \<Rightarrow> snd (subscribe_events s)
      | Unsubscribe q \<Rightarrow> unsubscribe_events q s
      | Get q \<Rightarrow> queue_get q s)"

definition step :: "env \<Rightarrow> 'f float_ops \<Rightarrow> 'f sched \<Rightarrow> 'f action \<Rightarrow> 'f sched" where
  "step env fo t a =
     (case a of
        Sched \<Rightarrow> sched_step env fo t
      | _ \<Rightarrow> t\<lparr>globals := handler_step a (globals t)\<rparr>)"

text \<open>A run: the actions of all threads in the order in which they happen.\<close>

definition run :: "env \<Rightarrow> 'f float_ops \<Rightarrow> 'f action list \<Rightarrow> 'f sched \<Rightarrow> 'f sched" where
  "run env fo as t = foldl (step env fo) t as"

text \<open>
  The three branches of \<^verbatim>\<open>set_refresh\<close> (lines 366-383), each in the order of its
  statements, and the two setters (lines 312-322, 345-351; \<^verbatim>\<open>set_filters\<close> stores
  stripped, non-empty keywords only).
\<close>

definition pause :: "'f action list" where
  "pause = [Set_paused True, Update_status [Next_refresh_in None], Add_log Msg_paused]"

definition resume :: "'f action list" where
  "resume =
     [Set_paused False, Update_status [Next_refresh_in (Some REFRESH_INTERVAL)],
      Add_log Msg_resumed]"

definition trigger_now :: "'f action list" where
  "trigger_now = [Set_now, Update_status [Next_refresh_in (Some 0)], Add_log Msg_manual_refresh]"

definition set_adjustment :: "'f float_ops \<Rightarrow> 'f \<Rightarrow> 'f action list" where
  "set_adjustment fo amt =
     [Set_adjustment amt, Add_log (Msg_adjustment (format_signed fo amt)), Update_status []]"

definition set_filters :: "string list \<Rightarrow> 'f action list" where
  "set_filters fs = [Set_filters fs, Add_log (Msg_filters fs), Update_status []]"

text \<open>The scheduler thread as \<^verbatim>\<open>run_scraper\<close> starts it.\<close>

definition main :: "'f float_ops \<Rightarrow> 'f sched" where
  "main fo =
     \<lparr>pc = Start, paused = False, do_refresh_now = False, globals = initial_state fo,
      cycles = 0, trigger_cycles = 0\<rparr>"

section \<open>Notions for the properties of the scheduler\<close>

text \<open>The globals a cycle leaves behind, however it ends.\<close>

definition outcome_state :: "'f outcome \<Rightarrow> 'f state" where
  "outcome_state out = (case out of Completed s \<Rightarrow> s | Raised e s \<Rightarrow> s)"

text \<open>
  The scheduler is \<open>holding\<close> when it will poll the pause flag before it can start a
  cycle (or will never start one again): at the loop head, on the paused path, at the
  pause poll of a countdown turn, and after a countdown that was broken by a pause.
  Otherwise a cycle is \<open>due\<close>: the last poll of the pause flag lies behind and the path
  to \<open>Run_cycle\<close> polls it no more.
\<close>

definition holding :: "'f sched \<Rightarrow> bool" where
  "holding t =
     (case pc t of
        Start \<Rightarrow> True
      | Loop_head \<Rightarrow> True
      | Paused_status \<Rightarrow> True
      | Paused_sleep \<Rightarrow> True
      | Check_now \<Rightarrow> False
      | Count_check_paused i \<Rightarrow> True
      | Count_paused_break \<Rightarrow> paused t
      | Count_check_now i \<Rightarrow> False
      | Count_tick i \<Rightarrow> False
      | After_countdown \<Rightarrow> paused t
      | Run_cycle \<Rightarrow> False
      | Hung \<Rightarrow> True
      | Stopped e \<Rightarrow> True)"

definition due :: "'f sched \<Rightarrow> nat" where
  "due t = (if holding t then 0 else 1)"


section \<open>Example inputs\<close>

text \<open>Concrete records and keyword lists on which the theorems below are run.\<close>

definition ex_raffle :: item where
  "ex_raffle = \<lparr>title = Some ''RAFFLE'', picture_url = None, price = Some ''$5.00'',
     remaining = None, item_value = None, bids = None\<rparr>"

definition ex_untitled :: item where
  "ex_untitled = \<lparr>title = None, picture_url = None, price = None,
     remaining = None, item_value = None, bids = Some ''3''\<rparr>"

definition ex_basket :: item where
  "ex_basket = \<lparr>title = Some ''Gift Basket'', picture_url = None, price = None,
     remaining = Some ''2 days'', item_value = None, bids = None\<rparr>"

definition ex_cafe :: item where
  "ex_cafe = \<lparr>title = Some (''CAF'' @ [CHR 0xC9] @ '' Gift Card''), picture_url = None,
     price = None, remaining = None, item_value = None, bids = None\<rparr>"

definition ex_cafe_keyword :: string where
  "ex_cafe_keyword = ''caf'' @ [CHR 0xE9]"

definition ex_items :: "item list" where
  "ex_items = [ex_raffle, ex_untitled, ex_basket, ex_cafe]"

definition ex_filters :: "string list" where
  "ex_filters = [''ask'', ''raffle'', ex_cafe_keyword, ''Gift'']"

text \<open>
  A site of two pages whose next links form a cycle: the first page links to the
  second and the second back to the first. Every other address fails. The summary page
  is among the failing ones.
\<close>

definition ex_page2 :: string where
  "ex_page2 = ''https://www.32auctions.com/organizations/ORG_ID/auctions/AUCTION_ID?page=2''"

definition ex_session_get :: "string \<Rightarrow> py_exception + response" where
  "ex_session_get u =
     (if u = URL then
        Inr \<lparr>parse_error = None, listing = [ex_raffle, ex_untitled],
             next_href = Some ex_page2, raised_amt = None\<rparr>
      else if u = ex_page2 then
        Inr \<lparr>parse_error = None, listing = [ex_basket], next_href = Some URL,
             raised_amt = None\<rparr>
      else Inl (Request_error ''404 Client Error''))"

definition ex_env :: env where
  "ex_env =
     \<lparr>session_get = ex_session_get, urljoin = (\<lambda>base href. Inr href), str_lower = ref_lower,
      write_artifact = (\<lambda>out. Inr ())\<rparr>"

text \<open>
  States with a manual adjustment of 5.0 and of 12.5, and the example site with a
  summary page that shows a given total.
\<close>

definition ex_state5 :: "dec state" where
  "ex_state5 = (initial_state ref_float)\<lparr>manual_adjustment := (5, 0)\<rparr>"

definition ex_env_total :: "string option \<Rightarrow> env" where
  "ex_env_total t =
     ex_env\<lparr>session_get := (\<lambda>u. if u = SUMMARY_URL
        then Inr \<lparr>parse_error = None, listing = [], next_href = None, raised_amt = t\<rparr>
        else ex_session_get u)\<rparr>"

definition ex_state125 :: "dec state" where
  "ex_state125 = (initial_state ref_float)\<lparr>manual_adjustment := (1250, 2)\<rparr>"

text \<open>
  Bus states: two subscribers, the first with one undelivered event; and a state made
  by hand (the program reaches none like it) whose first queue has the bound 1 and is
  full.
\<close>

definition ex_entry :: log_entry where
  "ex_entry = \<lparr>timestamp = 0, message = Msg_paused\<rparr>"

definition ex_event :: "dec event" where
  "ex_event = Log_event \<lparr>timestamp = 7, message = Msg_resumed\<rparr>"

definition ex_two_subscribers :: "dec state" where
  "ex_two_subscribers =
     snd (subscribe_events (add_log Msg_paused (snd (subscribe_events (initial_state ref_float)))))"

definition ex_bounded :: "dec state" where
  "ex_bounded =
     (initial_state ref_float)
       \<lparr>event_subscribers := [0, 1],
        queue_heap := [\<lparr>maxsize = 1, contents = [Log_event ex_entry]\<rparr>, Queue 0]\<rparr>"

text \<open>The example site with a disk that is full: writing the artifact fails.\<close>

definition ex_env_disk_full :: env where
  "ex_env_disk_full =
     ex_env\<lparr>write_artifact := (\<lambda>out. Inl (OS_error ''[Errno 28] No space left on device''))\<rparr>"

text \<open>
  A site whose first page carries the next link \<^verbatim>\<open>//[\<close>, on which \<^verbatim>\<open>urljoin\<close> raises its
  \<^verbatim>\<open>ValueError\<close>.
\<close>

definition ex_env_bad_link :: env where
  "ex_env_bad_link =
     ex_env\<lparr>session_get := (\<lambda>u. if u = URL
          then Inr \<lparr>parse_error = None, listing = [ex_raffle], next_href = Some ''//['',
                    raised_amt = None\<rparr>
          else ex_session_get u),
        urljoin := (\<lambda>base href. if href = ''//['' then Inl (Url_error ''Invalid IPv6 URL'')
          else Inr href)\<rparr>"

text \<open>
  Scheduler states reached from the start: a pause requested while the scheduler is
  at the loop head; a pause requested during the countdown; a pause observed and then
  resumed; a trigger requested during the countdown, with 8 seconds left.
\<close>

definition ex_paused_at_head :: "dec sched" where
  "ex_paused_at_head = run ex_env ref_float (Sched # pause) (main ref_float)"

definition ex_paused_in_countdown :: "dec sched" where
  "ex_paused_in_countdown = run ex_env ref_float ([Sched, Sched, Sched] @ pause) (main ref_float)"

definition ex_resumed :: "dec sched" where
  "ex_resumed =
     run ex_env ref_float (Sched # pause @ [Sched, Sched, Sched] @ resume) (main ref_float)"


section \<open>Properties of the FilterEngine\<close>

lemma filter_loop_kept:
  "fst (filter_loop lw af items acc out) =
     acc @ filter (\<lambda>it. case first_match af (lw (title_or_empty it)) of
                           None \<Rightarrow> True | Some m \<Rightarrow> m = []) items"
  by (induction items arbitrary: acc out) (auto simp: Let_def split: option.splits)

lemma filter_loop_rejected:
  "snd (filter_loop lw af items acc out) =
     out @ List.map_filter
       (\<lambda>it. case first_match af (lw (title_or_empty it)) of
                None \<Rightarrow> None | Some m \<Rightarrow> if m \<noteq> [] then Some (it, m) else None) items"
  by (induction items arbitrary: acc out) (auto simp: Let_def map_filter_simps split: option.splits)

lemma first_match_find:
  "first_match (active_filters lw F) t = find (\<lambda>f. f \<noteq> [] \<and> sublist (lw f) t) F"
  by (induction F) (auto simp: active_filters_def)

lemma find_term_matches_nonempty: "find (term_matches lw it) F = Some m \<Longrightarrow> m \<noteq> []"
  by (auto simp: find_Some_iff term_matches_def)

lemma no_active_filters:
  assumes "active_filters lw F = []"
  shows "find (term_matches lw it) F = None"
proof -
  from assms have "\<forall>f\<in>set F. f = []"
    by (auto simp: active_filters_def filter_empty_conv)
  then show ?thesis
    by (auto simp: find_None_iff term_matches_def)
qed

lemma apply_kept:
  "fst (apply_filters_to_items lw F R) = filter (\<lambda>it. find (term_matches lw it) F = None) R"
proof (cases "active_filters lw F = []")
  case True
  then show ?thesis
    by (simp add: apply_filters_to_items_def no_active_filters)
next
  case False
  have "\<And>it. (case find (term_matches lw it) F of None \<Rightarrow> True | Some m \<Rightarrow> m = [])
          = (find (term_matches lw it) F = None)"
    by (auto split: option.splits dest: find_term_matches_nonempty)
  with False show ?thesis
    by (simp add: apply_filters_to_items_def filter_loop_kept first_match_find
        term_matches_def[abs_def])
qed

lemma apply_rejected:
  "snd (apply_filters_to_items lw F R) =
     List.map_filter (\<lambda>it. map_option (Pair it) (find (term_matches lw it) F)) R"
proof (cases "active_filters lw F = []")
  case True
  then have "List.map_filter (\<lambda>it. map_option (Pair it) (find (term_matches lw it) F)) R = []"
    by (induction R) (auto simp: map_filter_simps no_active_filters)
  with True show ?thesis
    by (simp add: apply_filters_to_items_def)
next
  case False
  have "\<And>it. (case find (term_matches lw it) F of None \<Rightarrow> None
                | Some m \<Rightarrow> if m \<noteq> [] then Some (it, m) else None)
          = map_option (Pair it) (find (term_matches lw it) F)"
    by (auto split: option.splits dest: find_term_matches_nonempty)
  with False show ?thesis
    by (simp add: apply_filters_to_items_def filter_loop_rejected first_match_find
        term_matches_def[abs_def])
qed

lemma map_fst_map_filter:
  "map fst (List.map_filter (\<lambda>it. map_option (Pair it) (g it)) R) = filter (\<lambda>it. g it \<noteq> None) R"
  by (induction R) (auto simp: map_filter_simps split: option.splits)

lemma in_set_map_filter:
  "y \<in> set (List.map_filter g xs) \<longleftrightarrow> (\<exists>x\<in>set xs. g x = Some y)"
  by (induction xs) (auto simp: map_filter_simps split: option.splits)

lemma Bex_find: "(\<exists>f\<in>set F. P f) = (find P F \<noteq> None)"
  by (auto simp: find_None_iff)

text \<open>
  For a function that works character by character, containment of the images is
  containment of a piece with the same image.
\<close>

lemma sublist_map_iff:
  "sublist (map g xs) (map g ys) \<longleftrightarrow> (\<exists>w. sublist w ys \<and> map g w = map g xs)"
proof
  assume "sublist (map g xs) (map g ys)"
  then obtain ps ss where "map g ys = ps @ map g xs @ ss"
    by (auto simp: sublist_def)
  then obtain y1 r where r: "ys = y1 @ r" "ps = map g y1" "map g xs @ ss = map g r"
    unfolding map_eq_append_conv by blast
  from r(3) obtain y2 y3 where "r = y2 @ y3" "map g xs = map g y2" "ss = map g y3"
    unfolding append_eq_map_conv by blast
  with r(1) have "ys = y1 @ y2 @ y3" "map g y2 = map g xs"
    by simp_all
  then show "\<exists>w. sublist w ys \<and> map g w = map g xs"
    by (auto simp: sublist_def)
next
  assume "\<exists>w. sublist w ys \<and> map g w = map g xs"
  then obtain w ps ss where "ys = ps @ w @ ss" "map g w = map g xs"
    by (auto simp: sublist_def)
  then have "map g ys = map g ps @ map g xs @ ss'" if "ss' = map g ss" for ss'
    using that by simp
  then show "sublist (map g xs) (map g ys)"
    unfolding sublist_def by blast
qed


text \<open>
  Claim C1. For every record list \<open>R\<close> and every filter list \<open>F\<close>, the kept records and
  the records of the rejected pairs together are exactly the records of \<open>R\<close>, each as
  often as in \<open>R\<close>, and no record is on both sides. With the empty filter list the
  result is \<open>(R, [])\<close>: the input comes back unchanged. This holds whatever the
  runtime's \<^verbatim>\<open>lower\<close> does.
\<close>

theorem apply_filters_partition:
  "apply_filters_to_items lw [] R = (R, [])
   \<and> mset (fst (apply_filters_to_items lw F R))
        + mset (map fst (snd (apply_filters_to_items lw F R))) = mset R
   \<and> set (fst (apply_filters_to_items lw F R))
        \<inter> set (map fst (snd (apply_filters_to_items lw F R))) = {}"
proof (intro conjI)
  show "apply_filters_to_items lw [] R = (R, [])"
    by (simp add: apply_filters_to_items_def active_filters_def)
  show "mset (fst (apply_filters_to_items lw F R))
          + mset (map fst (snd (apply_filters_to_items lw F R))) = mset R"
    by (simp add: apply_kept apply_rejected map_fst_map_filter)
  show "set (fst (apply_filters_to_items lw F R))
          \<inter> set (map fst (snd (apply_filters_to_items lw F R))) = {}"
    by (auto simp: apply_kept apply_rejected map_fst_map_filter)
qed

text \<open>
  Claim C2, for every function \<open>lw\<close> in the place of \<^verbatim>\<open>str.lower\<close>, Python's own
  included. A record is rejected exactly when some keyword of the filter list matches
  it, that is, when the keyword's lower-cased form is contained in the lower-cased
  title (a filter set holds non-empty strings only; an empty string in the list is
  skipped by the code). Rejected records keep their order, the others are kept. The
  keyword reported with a rejected record is the first one in filter-list order that
  matches: no keyword before it does.

  A record whose title is missing or empty is matched by no keyword (\<^verbatim>\<open>lower\<close> gives
  the empty string for the empty string and for no other).

  The match is blind to case: it depends on the keyword and on the title only through
  their lower-cased forms, so two keywords, or two titles, that \<^verbatim>\<open>lower\<close> makes equal
  match alike. And where \<^verbatim>\<open>lower\<close> works character by character, a keyword matches
  exactly when the title has a piece that equals the keyword after lower-casing both.
\<close>

theorem filter_first_match:
  "map fst (snd (apply_filters_to_items lw F R))
     = filter (\<lambda>it. \<exists>f\<in>set F. term_matches lw it f) R
   \<and> fst (apply_filters_to_items lw F R)
       = filter (\<lambda>it. \<not> (\<exists>f\<in>set F. term_matches lw it f)) R
   \<and> (\<forall>(it, m) \<in> set (snd (apply_filters_to_items lw F R)).
        \<exists>i<length F. m = F ! i \<and> term_matches lw it (F ! i)
          \<and> (\<forall>j<i. \<not> term_matches lw it (F ! j)))
   \<and> ((\<forall>s. (lw s = []) = (s = [])) \<longrightarrow>
        title it = None \<or> title it = Some [] \<longrightarrow> \<not> term_matches lw it f)
   \<and> (f \<noteq> [] \<and> f' \<noteq> [] \<and> lw f = lw f' \<and> lw (title_or_empty it) = lw (title_or_empty it') \<longrightarrow>
        term_matches lw it f = term_matches lw it' f')
   \<and> ((\<forall>s. lw s = map lc s) \<longrightarrow>
        term_matches lw it f
          = (f \<noteq> [] \<and> (\<exists>w. sublist w (title_or_empty it) \<and> map lc w = map lc f)))"
proof (intro conjI impI)
  show "map fst (snd (apply_filters_to_items lw F R))
          = filter (\<lambda>it. \<exists>f\<in>set F. term_matches lw it f) R"
    by (simp add: apply_rejected map_fst_map_filter Bex_find)
  show "fst (apply_filters_to_items lw F R)
          = filter (\<lambda>it. \<not> (\<exists>f\<in>set F. term_matches lw it f)) R"
    by (simp add: apply_kept Bex_find)
  show "\<forall>(it, m) \<in> set (snd (apply_filters_to_items lw F R)).
          \<exists>i<length F. m = F ! i \<and> term_matches lw it (F ! i)
            \<and> (\<forall>j<i. \<not> term_matches lw it (F ! j))"
    by (auto simp: apply_rejected in_set_map_filter find_Some_iff)
next
  assume e: "\<forall>s. (lw s = []) = (s = [])" and t: "title it = None \<or> title it = Some []"
  from t have t0: "title_or_empty it = []"
    by (auto simp: title_or_empty_def)
  from e have l0: "lw [] = []"
    by blast
  show "\<not> term_matches lw it f"
  proof
    assume "term_matches lw it f"
    then have "f \<noteq> []" and "sublist (lw f) []"
      unfolding term_matches_def t0 l0 by blast+
    then have "f \<noteq> []" and "lw f = []"
      by simp_all
    with e show False
      by blast
  qed
next
  assume "f \<noteq> [] \<and> f' \<noteq> [] \<and> lw f = lw f' \<and> lw (title_or_empty it) = lw (title_or_empty it')"
  then show "term_matches lw it f = term_matches lw it' f'"
    by (simp add: term_matches_def)
next
  assume "\<forall>s. lw s = map lc s"
  then show "term_matches lw it f
          = (f \<noteq> [] \<and> (\<exists>w. sublist w (title_or_empty it) \<and> map lc w = map lc f))"
    by (simp add: term_matches_def sublist_map_iff)
qed

lemmas lower_eval = ref_lower_def lower_char_def upper_letters_def lower_letters_def

lemma ref_lower_empty: "(ref_lower s = []) = (s = [])"
  by (simp add: ref_lower_def)

lemma ex_apply:
  "apply_filters_to_items ref_lower ex_filters ex_items
     = ([ex_untitled], [(ex_raffle, ''raffle''), (ex_basket, ''ask''), (ex_cafe, ex_cafe_keyword)])"
  by (simp add: apply_filters_to_items_def active_filters_def ex_filters_def ex_items_def
      ex_raffle_def ex_untitled_def ex_basket_def ex_cafe_def ex_cafe_keyword_def
      title_or_empty_def lower_eval sublist_Cons_right)

text \<open>
  Claim C2 run with the reference \<open>lower\<close>: the title \<open>RAFFLE\<close> is rejected for the
  keyword \<open>raffle\<close>, which is the first of the list that matches it; the title
  \<open>CAF\<close>, code point \<open>0xC9\<close>, \<open> Gift Card\<close> is rejected for the keyword \<open>caf\<close>, code point
  \<open>0xE9\<close>; the record without a title is kept; and the keyword \<open>RAFFLE\<close> matches what
  \<open>raffle\<close> matches.
\<close>

theorem filter_first_match_witness:
  "(ex_raffle, ''raffle'') \<in> set (snd (apply_filters_to_items ref_lower ex_filters ex_items))
   \<and> (\<forall>s. (ref_lower s = []) = (s = []))
   \<and> (\<forall>s. ref_lower s = map lower_char s)
   \<and> title ex_untitled = None
   \<and> ref_lower ''RAFFLE'' = ref_lower ''raffle''
   \<and> (\<exists>i<length ex_filters. ''raffle'' = ex_filters ! i
         \<and> term_matches ref_lower ex_raffle (ex_filters ! i)
         \<and> (\<forall>j<i. \<not> term_matches ref_lower ex_raffle (ex_filters ! j)))
   \<and> \<not> term_matches ref_lower ex_untitled ''raffle''
   \<and> term_matches ref_lower ex_raffle ''RAFFLE'' = term_matches ref_lower ex_raffle ''raffle''
   \<and> (\<exists>w. sublist w (title_or_empty ex_cafe) \<and> map lower_char w = map lower_char ex_cafe_keyword)
   \<and> map fst (snd (apply_filters_to_items ref_lower ex_filters ex_items))
       = [ex_raffle, ex_basket, ex_cafe]
   \<and> fst (apply_filters_to_items ref_lower ex_filters ex_items) = [ex_untitled]"
proof -
  have mem: "(ex_raffle, ''raffle'') \<in> set (snd (apply_filters_to_items ref_lower ex_filters ex_items))"
    by (simp add: ex_apply)
  have untitled: "title ex_untitled = None"
    by (simp add: ex_untitled_def)
  have emp: "\<forall>s. (ref_lower s = []) = (s = [])"
    by (simp add: ref_lower_empty)
  have chr: "\<forall>s. ref_lower s = map lower_char s"
    by (simp add: ref_lower_def)
  have same: "ref_lower ''RAFFLE'' = ref_lower ''raffle''"
    by (simp add: lower_eval)
  have cafe: "term_matches ref_lower ex_cafe ex_cafe_keyword"
    by (simp add: term_matches_def ex_cafe_def ex_cafe_keyword_def title_or_empty_def lower_eval
        sublist_Cons_right)
  note a = filter_first_match [of ref_lower ex_filters ex_items ex_untitled "''raffle''"
      "''RAFFLE''" ex_untitled lower_char]
  note b = filter_first_match [of ref_lower ex_filters ex_items ex_raffle "''RAFFLE''"
      "''raffle''" ex_raffle lower_char]
  note c = filter_first_match [of ref_lower ex_filters ex_items ex_cafe ex_cafe_keyword
      ex_cafe_keyword ex_cafe lower_char]
  from a mem have first: "\<exists>i<length ex_filters. ''raffle'' = ex_filters ! i
      \<and> term_matches ref_lower ex_raffle (ex_filters ! i)
      \<and> (\<forall>j<i. \<not> term_matches ref_lower ex_raffle (ex_filters ! j))"
    by blast
  from a untitled emp have none: "\<not> term_matches ref_lower ex_untitled ''raffle''"
    by blast
  from b same have blind:
    "term_matches ref_lower ex_raffle ''RAFFLE'' = term_matches ref_lower ex_raffle ''raffle''"
    by simp
  from c chr cafe have piece:
    "\<exists>w. sublist w (title_or_empty ex_cafe) \<and> map lower_char w = map lower_char ex_cafe_keyword"
    by blast
  from mem untitled emp chr same first none blind piece show ?thesis
    by (simp add: ex_apply)
qed

section \<open>Properties of the log buffer\<close>

lemma append_capped_length:
  "length b \<le> MAX_LOGS \<Longrightarrow> length (append_capped e b) \<le> MAX_LOGS"
  by (auto simp: append_capped_def Let_def)

lemma append_capped_drop:
  assumes "length b \<le> MAX_LOGS"
  shows "append_capped e b = drop (length (b @ [e]) - MAX_LOGS) (b @ [e])"
proof (cases "length b < MAX_LOGS")
  case True
  then show ?thesis by (simp add: append_capped_def Let_def)
next
  case False
  with assms have full: "length b = MAX_LOGS" by simp
  then have "length (b @ [e]) - MAX_LOGS = Suc 0" by simp
  moreover have "append_capped e b = tl (b @ [e])"
    using full by (simp add: append_capped_def Let_def)
  ultimately show ?thesis by (simp only: drop_Suc drop_0)
qed

lemma drop_cap_step:
  assumes "length (drop (length es - M) es) \<le> M"
  shows "drop (length (drop (length es - M) es @ [e]) - M) (drop (length es - M) es @ [e])
           = drop (length (es @ [e]) - M) (es @ [e])"
proof (cases "length es < M")
  case True
  then show ?thesis by simp
next
  case False
  then have d: "length (drop (length es - M) es) = M" by simp
  have "drop (length (drop (length es - M) es @ [e]) - M) (drop (length es - M) es @ [e])
        = drop (Suc 0) (drop (length es - M) (es @ [e]))"
    using d by simp
  also have "\<dots> = drop (Suc (length es - M)) (es @ [e])"
    by (simp only: drop_drop) simp
  also have "Suc (length es - M) = length (es @ [e]) - M"
    using False by simp
  finally show ?thesis .
qed

lemma log_entries_publish_event [simp]: "log_entries (publish_event p s) = log_entries s"
  by (simp add: publish_event_def)

lemma clock_publish_event [simp]: "clock (publish_event p s) = clock s"
  by (simp add: publish_event_def)

lemma log_entries_add_log:
  "log_entries (add_log m s)
     = append_capped \<lparr>timestamp = clock s, message = m\<rparr> (log_entries s)"
  by (simp add: add_log_def Let_def)

lemma clock_add_log [simp]: "clock (add_log m s) = clock s"
  by (simp add: add_log_def Let_def)

lemma add_logs_snoc: "add_logs (ms @ [m]) s = add_log m (add_logs ms s)"
  by (simp add: add_logs_def)

lemma clock_add_logs [simp]: "clock (add_logs ms s) = clock s"
  by (induction ms rule: rev_induct) (simp_all add: add_logs_snoc, simp add: add_logs_def)

lemma add_logs_length:
  "length (log_entries s) \<le> MAX_LOGS \<Longrightarrow> length (log_entries (add_logs ms s)) \<le> MAX_LOGS"
proof (induction ms rule: rev_induct)
  case Nil
  then show ?case by (simp add: add_logs_def)
next
  case (snoc m ms)
  then show ?case by (simp add: add_logs_snoc log_entries_add_log append_capped_length)
qed

lemma add_logs_entries:
  assumes "length (log_entries s) \<le> MAX_LOGS"
  shows "log_entries (add_logs ms s) =
     drop (length (log_entries s) + length ms - MAX_LOGS)
       (log_entries s @ map (\<lambda>m. \<lparr>timestamp = clock s, message = m\<rparr>) ms)"
proof (induction ms rule: rev_induct)
  case Nil
  with assms show ?case by (simp add: add_logs_def)
next
  case (snoc m ms)
  let ?es = "log_entries s @ map (\<lambda>m. \<lparr>timestamp = clock s, message = m\<rparr>) ms"
  let ?e = "\<lparr>timestamp = clock s, message = m\<rparr>"
  let ?d = "length (log_entries s) + length ms - MAX_LOGS"
  have len: "length (log_entries (add_logs ms s)) \<le> MAX_LOGS"
    using assms by (rule add_logs_length)
  have IH: "log_entries (add_logs ms s) = drop ?d ?es"
    using snoc by simp
  have "log_entries (add_logs (ms @ [m]) s) = append_capped ?e (drop ?d ?es)"
    by (simp add: add_logs_snoc log_entries_add_log IH)
  also have "\<dots> = drop (length (drop ?d ?es @ [?e]) - MAX_LOGS) (drop ?d ?es @ [?e])"
    using len IH by (simp add: append_capped_drop)
  also have "\<dots> = drop (length (?es @ [?e]) - MAX_LOGS) (?es @ [?e])"
    using len IH drop_cap_step [of ?es MAX_LOGS ?e] by simp
  also have "\<dots> = drop (length (log_entries s) + length (ms @ [m]) - MAX_LOGS)
      (log_entries s @ map (\<lambda>m. \<lparr>timestamp = clock s, message = m\<rparr>) (ms @ [m]))"
    by simp
  finally show ?case .
qed

text \<open>
  Claim C3. A buffer of at most \<open>MAX_LOGS\<close> (200) entries still has at most
  \<open>MAX_LOGS\<close> entries after any sequence of \<^verbatim>\<open>add_log\<close> calls. Starting from the empty
  buffer, after \<open>MAX_LOGS + k\<close> calls the buffer holds exactly the entries of the last
  \<open>MAX_LOGS\<close> calls, in the order of the calls: the first \<open>k\<close> were evicted.
\<close>

theorem log_buffer_capped:
  "(length (log_entries s) \<le> MAX_LOGS \<longrightarrow> length (log_entries (add_logs msgs s)) \<le> MAX_LOGS)
   \<and> (log_entries s = [] \<and> length msgs = MAX_LOGS + k \<longrightarrow>
        log_entries (add_logs msgs s)
          = map (\<lambda>m. \<lparr>timestamp = clock s, message = m\<rparr>) (drop k msgs)
        \<and> length (log_entries (add_logs msgs s)) = MAX_LOGS)"
proof (intro conjI impI)
  assume "length (log_entries s) \<le> MAX_LOGS"
  then show "length (log_entries (add_logs msgs s)) \<le> MAX_LOGS"
    by (rule add_logs_length)
next
  assume a: "log_entries s = [] \<and> length msgs = MAX_LOGS + k"
  then have "log_entries (add_logs msgs s)
      = drop (length msgs - MAX_LOGS) (map (\<lambda>m. \<lparr>timestamp = clock s, message = m\<rparr>) msgs)"
    using add_logs_entries [of s msgs] by simp
  with a show e: "log_entries (add_logs msgs s)
      = map (\<lambda>m. \<lparr>timestamp = clock s, message = m\<rparr>) (drop k msgs)"
    by (simp add: drop_map)
  from a show "length (log_entries (add_logs msgs s)) = MAX_LOGS"
    unfolding e by simp
qed

theorem log_buffer_capped_witness:
  "length (log_entries (initial_state ref_float)) \<le> MAX_LOGS
   \<and> log_entries (initial_state ref_float) = []
   \<and> length (map Msg_saved [0..<203]) = MAX_LOGS + 3
   \<and> length (log_entries (add_logs (map Msg_saved [0..<203]) (initial_state ref_float))) \<le> MAX_LOGS
   \<and> log_entries (add_logs (map Msg_saved [0..<203]) (initial_state ref_float))
       = map (\<lambda>m. \<lparr>timestamp = 0, message = m\<rparr>) (map Msg_saved [3..<203])"
  using log_buffer_capped [of "initial_state ref_float" "map Msg_saved [0..<203]" 3]
  by (simp add: initial_state_def MAX_LOGS_def drop_map)

section \<open>Properties of the crawler\<close>

lemma scan_cards_seen [simp]: "seen_pages (scan_cards cb its c) = seen_pages c"
  by (induction its arbitrary: c) auto

lemma scan_cards_requests [simp]: "requests (scan_cards cb its c) = requests c"
  by (induction its arbitrary: c) auto

lemma fetch_loop_None: "fetch_loop env cb None c = Some c"
  by (subst fetch_loop.simps) simp

lemma fetch_loop_stop:
  "u = [] \<or> u \<in> seen_pages c \<Longrightarrow> fetch_loop env cb (Some u) c = Some c"
  by (subst fetch_loop.simps) simp

lemma fetch_loop_error:
  "\<not> (u = [] \<or> u \<in> seen_pages c) \<Longrightarrow> session_get env u = Inl e \<Longrightarrow>
   fetch_loop env cb (Some u) c =
     Some (c\<lparr>seen_pages := insert u (seen_pages c), requests := requests c @ [u],
             crawl_state := add_log (Msg_error_fetching u (exception_text e)) (crawl_state c)\<rparr>)"
  by (subst fetch_loop.simps) (simp add: Let_def)

lemma fetch_loop_parse_error:
  "\<not> (u = [] \<or> u \<in> seen_pages c) \<Longrightarrow> session_get env u = Inr r \<Longrightarrow>
   parse_error r = Some e \<Longrightarrow>
   fetch_loop env cb (Some u) c =
     Some (c\<lparr>seen_pages := insert u (seen_pages c), requests := requests c @ [u],
             raised := Some e\<rparr>)"
  by (subst fetch_loop.simps) (simp add: Let_def)

lemma fetch_loop_join_error:
  "\<not> (u = [] \<or> u \<in> seen_pages c) \<Longrightarrow> session_get env u = Inr r \<Longrightarrow>
   parse_error r = None \<Longrightarrow> next_page env u r = Inl e \<Longrightarrow>
   fetch_loop env cb (Some u) c =
     Some ((scan_cards cb (listing r)
              (c\<lparr>seen_pages := insert u (seen_pages c), requests := requests c @ [u]\<rparr>))
           \<lparr>raised := Some e\<rparr>)"
  by (subst fetch_loop.simps) (simp add: Let_def)

lemma fetch_loop_page:
  "\<not> (u = [] \<or> u \<in> seen_pages c) \<Longrightarrow> session_get env u = Inr r \<Longrightarrow>
   parse_error r = None \<Longrightarrow> next_page env u r = Inr nxt \<Longrightarrow>
   fetch_loop env cb (Some u) c =
     fetch_loop env cb nxt
       (scan_cards cb (listing r)
          (c\<lparr>seen_pages := insert u (seen_pages c), requests := requests c @ [u]\<rparr>))"
  by (subst fetch_loop.simps) (simp add: Let_def)

lemma fetch_loop_page_cases:
  "\<not> (u = [] \<or> u \<in> seen_pages c) \<Longrightarrow> session_get env u = Inr r \<Longrightarrow>
   fetch_loop env cb (Some u) c =
     (case parse_error r of
        Some e \<Rightarrow>
          Some (c\<lparr>seen_pages := insert u (seen_pages c), requests := requests c @ [u],
                  raised := Some e\<rparr>)
      | None \<Rightarrow>
          (case next_page env u r of
             Inl e \<Rightarrow>
               Some ((scan_cards cb (listing r)
                        (c\<lparr>seen_pages := insert u (seen_pages c),
                           requests := requests c @ [u]\<rparr>))
                     \<lparr>raised := Some e\<rparr>)
           | Inr nxt \<Rightarrow>
               fetch_loop env cb nxt
                 (scan_cards cb (listing r)
                    (c\<lparr>seen_pages := insert u (seen_pages c),
                       requests := requests c @ [u]\<rparr>))))"
  by (subst fetch_loop.simps) (simp add: Let_def split: option.splits)

lemma scan_cards_raised [simp]: "raised (scan_cards cb its c) = raised c"
  by (induction its arbitrary: c) auto

lemma next_page_safe: "crawl_safe env \<Longrightarrow> \<exists>nxt. next_page env u r = Inr nxt"
proof -
  assume safe: "crawl_safe env"
  show ?thesis
  proof (cases "next_href r")
    case None
    then show ?thesis by (simp add: next_page_def)
  next
    case (Some h)
    from safe obtain v where "urljoin env u h = Inr v"
      unfolding crawl_safe_def by blast
    then show ?thesis using Some by (simp add: next_page_def)
  qed
qed

lemma parse_safe: "crawl_safe env \<Longrightarrow> session_get env u = Inr r \<Longrightarrow> parse_error r = None"
  unfolding crawl_safe_def by blast

lemma card_unseen_less:
  assumes "finite P" "u \<in> P" "u \<notin> S"
  shows "card (P - insert u S) < card (P - S)"
proof -
  have "P - insert u S = (P - S) - {u}" by auto
  moreover have "u \<in> P - S" using assms by simp
  moreover have "finite (P - S)" using assms by simp
  ultimately show ?thesis by (simp only: card_Diff1_less)
qed

lemma fetch_loop_returns:
  assumes fin: "finite {u. \<exists>r. session_get env u = Inr r}"
  shows "crawl_inv c \<Longrightarrow>
         \<exists>c'. fetch_loop env cb nxt c = Some c' \<and> crawl_inv c'
              \<and> (crawl_safe env \<longrightarrow> raised c = None \<longrightarrow> raised c' = None)"
proof (induction "card ({u. \<exists>r. session_get env u = Inr r} - seen_pages c)" arbitrary: c nxt rule: less_induct)
  case less
  let ?P = "{u. \<exists>r. session_get env u = Inr r}"
  show ?case
  proof (cases nxt)
    case None
    then show ?thesis using less.prems by (simp add: fetch_loop_None)
  next
    case (Some u)
    note nxt = Some
    show ?thesis
    proof (cases "u = [] \<or> u \<in> seen_pages c")
      case True
      then show ?thesis using Some less.prems by (simp add: fetch_loop_stop)
    next
      case False
      let ?c1 = "c\<lparr>seen_pages := insert u (seen_pages c), requests := requests c @ [u]\<rparr>"
      have inv1: "crawl_inv ?c1" using less.prems False by (auto simp: crawl_inv_def)
      show ?thesis
      proof (cases "session_get env u")
        case (Inl e)
        have "crawl_inv (c\<lparr>seen_pages := insert u (seen_pages c), requests := requests c @ [u],
             crawl_state := add_log (Msg_error_fetching u (exception_text e)) (crawl_state c)\<rparr>)"
          using inv1 by (simp add: crawl_inv_def)
        then show ?thesis unfolding Some fetch_loop_error [OF False Inl] by simp
      next
        case (Inr r)
        let ?c2 = "scan_cards cb (listing r) ?c1"
        have inv2: "crawl_inv ?c2"
          using inv1 by (simp add: crawl_inv_def)
        show ?thesis
        proof (cases "parse_error r")
          case (Some e)
          have "crawl_inv (c\<lparr>seen_pages := insert u (seen_pages c), requests := requests c @ [u],
               raised := Some e\<rparr>)"
            using inv1 by (simp add: crawl_inv_def)
          moreover have "\<not> crawl_safe env" using parse_safe [OF _ Inr] Some by auto
          ultimately show ?thesis
            unfolding nxt fetch_loop_parse_error [OF False Inr Some] by simp
        next
          case None
          show ?thesis
          proof (cases "next_page env u r")
            case (Inl e)
            have "crawl_inv (?c2\<lparr>raised := Some e\<rparr>)"
              using inv2 by (simp add: crawl_inv_def)
            moreover have "\<not> crawl_safe env" using next_page_safe [of env u r] Inl by auto
            ultimately show ?thesis
              unfolding nxt fetch_loop_join_error [OF False Inr None Inl] by simp
          next
            case (Inr nxt')
            have "u \<in> ?P" using \<open>session_get env u = Inr r\<close> by blast
            then have "card (?P - insert u (seen_pages c)) < card (?P - seen_pages c)"
              using fin False by (intro card_unseen_less) simp_all
            then have lt: "card (?P - seen_pages ?c2) < card (?P - seen_pages c)"
              by simp
            from less.hyps [OF lt inv2, of nxt']
            show ?thesis
              unfolding nxt
                fetch_loop_page [OF False \<open>session_get env u = Inr r\<close> None Inr] by simp
          qed
        qed
      qed
    qed
  qed
qed

lemma fetch_ends:
  assumes fin: "finite {u. \<exists>r. session_get env u = Inr r}"
  shows "\<exists>c. fetch_auction_items env u cb s = Some c \<and> crawl_inv c
              \<and> (crawl_safe env \<longrightarrow> raised c = None)"
proof -
  let ?c0 = "\<lparr>crawl_items = [], seen_pages = {}, requests = [], crawl_state = s, raised = None\<rparr>"
  have "crawl_inv ?c0"
    by (simp add: crawl_inv_def)
  from fetch_loop_returns [OF fin this, of cb "Some u"]
  obtain c' where c': "fetch_loop env cb (Some u) ?c0 = Some c'" "crawl_inv c'"
      "crawl_safe env \<longrightarrow> raised c' = None"
    by auto
  then show ?thesis
    by (cases "raised c'") (auto simp: fetch_auction_items_def crawl_inv_def)
qed

text \<open>
  Claim C10. When only finitely many addresses answer with a page, the pagination
  walker ends, whatever the next links are (cycles and links back to visited pages
  included). In the run no address is requested twice, and the addresses requested are
  exactly those put into the visited set. Where the parser and \<^verbatim>\<open>urljoin\<close> raise
  nothing, it ends by returning.
\<close>

theorem fetch_terminates:
  "finite {u. \<exists>r. session_get env u = Inr r} \<Longrightarrow>
     \<exists>c. fetch_auction_items env u cb s = Some c \<and> distinct (requests c) \<and> set (requests c) = seen_pages c
         \<and> (crawl_safe env \<longrightarrow> raised c = None)"
  using fetch_ends [of env u cb s] by (simp add: crawl_inv_def)


lemma ex_pages_finite: "finite {u. \<exists>r. session_get ex_env u = Inr r}"
proof -
  have "{u. \<exists>r. session_get ex_env u = Inr r} \<subseteq> {URL, ex_page2}"
    by (auto simp: ex_env_def ex_session_get_def split: if_splits)
  then show ?thesis by (rule finite_subset) simp
qed

lemma URL_nonempty: "URL \<noteq> []"
  by (simp add: URL_def)

lemma ex_page2_nonempty: "ex_page2 \<noteq> []"
  by (simp add: ex_page2_def)

lemma ex_page2_neq: "ex_page2 \<noteq> URL" "URL \<noteq> ex_page2"
  by (simp_all add: URL_def ex_page2_def)

text \<open>
  An exception of \<^verbatim>\<open>urljoin\<close> leaves the crawl, after the cards of the page have been
  logged, and then the cycle.
\<close>

lemma ex_bad_link_fetch:
  "map_option (\<lambda>c. (raised c, requests c))
     (fetch_auction_items ex_env_bad_link URL (Some add_log) s)
     = Some (Some (Url_error ''Invalid IPv6 URL''), [URL])"
  by (simp add: fetch_auction_items_def fetch_loop_page_cases ex_env_bad_link_def ex_env_def
      next_page_def URL_nonempty)

lemma ex_bad_link_cycle:
  "\<exists>g. run_cycle ex_env_bad_link ref_float s = Some (Raised (Url_error ''Invalid IPv6 URL'') g)"
proof -
  let ?s2 = "add_log Msg_begin_cycle (s\<lparr>status := (status s)\<lparr>next_refresh_in := Some 0\<rparr>\<rparr>)"
  from ex_bad_link_fetch [of ?s2] obtain c where
    "fetch_auction_items ex_env_bad_link URL (Some add_log) ?s2 = Some c"
    "raised c = Some (Url_error ''Invalid IPv6 URL'')"
    by auto
  then show ?thesis by (simp add: run_cycle_def Let_def)
qed

lemma ex_env_safe: "crawl_safe ex_env"
  by (auto simp: crawl_safe_def ex_env_def ex_session_get_def split: if_splits)

lemma ex_fetch:
  "map_option (\<lambda>c. (crawl_items c, requests c)) (fetch_auction_items ex_env URL (Some add_log) (initial_state ref_float))
     = Some ([ex_raffle, ex_untitled, ex_basket], [URL, ex_page2])"
  by (simp add: fetch_auction_items_def fetch_loop_page_cases fetch_loop_stop fetch_loop_None
      ex_env_def ex_session_get_def next_page_def URL_nonempty ex_page2_nonempty ex_page2_neq)

theorem fetch_terminates_witness:
  "finite {u. \<exists>r. session_get ex_env u = Inr r}
   \<and> crawl_safe ex_env
   \<and> (\<exists>c. fetch_auction_items ex_env URL (Some add_log) (initial_state ref_float) = Some c
          \<and> distinct (requests c) \<and> set (requests c) = seen_pages c
          \<and> raised c = None
          \<and> requests c = [URL, ex_page2])"
  using fetch_terminates [OF ex_pages_finite, of URL "Some add_log" "initial_state ref_float"]
    ex_fetch ex_pages_finite ex_env_safe
  by auto


section \<open>What logging leaves alone\<close>

lemma length_deliver [simp]: "length (deliver p heap q) = length heap"
  by (simp add: deliver_def put_def split: sum.splits)

lemma nth_deliver:
  "j < length heap \<Longrightarrow>
   deliver p heap q ! j =
     (if j = q \<and> \<not> full (heap ! q) then (heap ! q)\<lparr>contents := contents (heap ! q) @ [p]\<rparr>
      else heap ! j)"
  by (auto simp: deliver_def put_def nth_list_update)

lemma blank_deliver [simp]:
  "map (\<lambda>q. q\<lparr>contents := []\<rparr>) (deliver p heap q) = map (\<lambda>q. q\<lparr>contents := []\<rparr>) heap"
  by (rule nth_equalityI) (auto simp: nth_deliver)

lemma blank_foldl_deliver [simp]:
  "map (\<lambda>q. q\<lparr>contents := []\<rparr>) (foldl (deliver p) heap qs) = map (\<lambda>q. q\<lparr>contents := []\<rparr>) heap"
  by (induction qs arbitrary: heap) simp_all

lemma control_of_publish_event [simp]: "control_of (publish_event p s) = control_of s"
  by (simp add: control_of_def publish_event_def)

lemma control_of_add_log [simp]: "control_of (add_log m s) = control_of s"
  by (simp add: control_of_def add_log_def publish_event_def Let_def)

lemma control_of_fields:
  "manual_adjustment s = manual_adjustment (control_of s)"
  "refresh_paused s = refresh_paused (control_of s)"
  "refresh_now s = refresh_now (control_of s)"
  "status s = status (control_of s)"
  "filters s = filters (control_of s)"
  "clock s = clock (control_of s)"
  "event_subscribers s = event_subscribers (control_of s)"
  by (simp_all add: control_of_def)

lemma control_of_scan_cards [simp]:
  "control_of (crawl_state (scan_cards (Some add_log) its c)) = control_of (crawl_state c)"
  by (induction its arbitrary: c) (simp_all add: call_progress_def)

lemma control_of_fetch_loop_gen:
  assumes "fetch_loop env0 cb0 nxt0 c0 = Some c0'"
  shows "cb0 = Some add_log \<longrightarrow> control_of (crawl_state c0') = control_of (crawl_state c0)"
proof (rule fetch_loop.raw_induct
    [where P = "\<lambda>env cb nxt c c'. cb = Some add_log \<longrightarrow>
                  control_of (crawl_state c') = control_of (crawl_state c)", OF _ assms])
  fix fl :: "env \<Rightarrow> 'a callback option \<Rightarrow> string option \<Rightarrow> 'a crawl \<Rightarrow> 'a crawl option"
  fix env cb nxt c c'
  assume IH: "\<And>env cb nxt c c'. fl env cb nxt c = Some c' \<Longrightarrow>
     cb = Some add_log \<longrightarrow> control_of (crawl_state c') = control_of (crawl_state c)"
  assume body: "(case nxt of
        None \<Rightarrow> Some c
      | Some u \<Rightarrow>
          if u = [] \<or> u \<in> seen_pages c then Some c
          else
            (let c1 = c\<lparr>seen_pages := insert u (seen_pages c), requests := requests c @ [u]\<rparr> in
             case session_get env u of
               Inl e \<Rightarrow>
                 Some (c1\<lparr>crawl_state :=
                   add_log (Msg_error_fetching u (exception_text e)) (crawl_state c1)\<rparr>)
             | Inr r \<Rightarrow>
                 (case parse_error r of
                    Some e \<Rightarrow> Some (c1\<lparr>raised := Some e\<rparr>)
                  | None \<Rightarrow>
                      (let c2 = scan_cards cb (listing r) c1 in
                       case next_page env u r of
                         Inl e \<Rightarrow> Some (c2\<lparr>raised := Some e\<rparr>)
                       | Inr next_url' \<Rightarrow> fl env cb next_url' c2)))) = Some c'"
  show "cb = Some add_log \<longrightarrow> control_of (crawl_state c') = control_of (crawl_state c)"
  proof
    assume cb: "cb = Some add_log"
    show "control_of (crawl_state c') = control_of (crawl_state c)"
    proof (cases nxt)
      case None
      with body show ?thesis by simp
    next
      case (Some u)
      show ?thesis
      proof (cases "u = [] \<or> u \<in> seen_pages c")
        case True
        with body Some show ?thesis by auto
      next
        case False
        show ?thesis
        proof (cases "session_get env u")
          case (Inl e)
          with body Some False show ?thesis by (auto simp: Let_def)
        next
          case (Inr r)
          note page = Inr
          show ?thesis
          proof (cases "parse_error r")
            case (Some e)
            with body \<open>nxt = Some u\<close> False page show ?thesis by (auto simp: Let_def)
          next
            case None
            note parsed = None
            show ?thesis
            proof (cases "next_page env u r")
              case (Inl e)
              with body \<open>nxt = Some u\<close> False page parsed cb show ?thesis
                by (auto simp: Let_def)
            next
              case (Inr nxt')
              with body \<open>nxt = Some u\<close> False page parsed have
                "fl env cb nxt' (scan_cards cb (listing r)
                    (c\<lparr>seen_pages := insert u (seen_pages c), requests := requests c @ [u]\<rparr>)) = Some c'"
                by (auto simp: Let_def)
              from IH [OF this] cb show ?thesis by simp
            qed
          qed
        qed
      qed
    qed
  qed
qed

lemma control_of_fetch_loop:
  "fetch_loop env (Some add_log) nxt c = Some c' \<Longrightarrow>
     control_of (crawl_state c') = control_of (crawl_state c)"
  using control_of_fetch_loop_gen by blast

lemma control_of_fetch:
  "fetch_auction_items env u (Some add_log) s = Some c \<Longrightarrow> control_of (crawl_state c) = control_of s"
  by (auto simp: fetch_auction_items_def call_progress_def split: option.splits
      dest!: control_of_fetch_loop)

lemma control_of_log_filtered_items [simp]:
  "control_of (log_filtered_items fo' s) = control_of s"
  by (induction fo' s rule: log_filtered_items.induct) simp_all

lemma control_of_log_filtered [simp]: "control_of (log_filtered fo' s) = control_of s"
  by (simp add: log_filtered_def Let_def)

lemma fst_get_total_raised: "fst (get_total_raised env SUMMARY_URL s) = fetched_total env"
  by (simp add: get_total_raised_def fetched_total_def split: sum.splits option.splits)

lemma control_of_get_total_raised [simp]: "control_of (snd (get_total_raised env u s)) = control_of s"
  by (simp add: get_total_raised_def split: sum.splits option.splits)

lemma status_update_status:
  "status (snd (update_status kw s)) = (if kw \<noteq> [] then foldl set_key (status s) kw else status s)"
  by (simp add: update_status_def Let_def publish_event_def)

lemma last_total_finish_cycle: "last_total (status (finish_cycle st k d s)) = Some d"
  by (simp add: finish_cycle_def Let_def status_update_status set_key_def)

lemma next_refresh_finish_cycle: "next_refresh_in (status (finish_cycle st k d s)) = Some REFRESH_INTERVAL"
  by (simp add: finish_cycle_def Let_def status_update_status set_key_def)

lemma run_cycle_last_total:
  assumes "run_cycle env fo s = Some (Completed s')"
  shows "last_total (status s') = Some (total_raised_display fo (fetched_total env) (manual_adjustment s))"
proof -
  let ?s2 = "add_log Msg_begin_cycle (s\<lparr>status := (status s)\<lparr>next_refresh_in := Some 0\<rparr>\<rparr>)"
  from assms obtain c where c: "fetch_auction_items env URL (Some add_log) ?s2 = Some c"
    by (auto simp: run_cycle_def Let_def split: option.splits)
  have ctl: "control_of (crawl_state c) = control_of ?s2"
    using c by (rule control_of_fetch)
  let ?s3 = "log_filtered (snd (apply_filters_to_items (str_lower env) (filters (crawl_state c))
      (crawl_items c))) (crawl_state c)"
  let ?s4 = "snd (get_total_raised env SUMMARY_URL ?s3)"
  have "control_of ?s4 = control_of ?s2" using ctl by simp
  then have "manual_adjustment (control_of ?s4) = manual_adjustment (control_of ?s2)" by simp
  then have adj: "manual_adjustment ?s4 = manual_adjustment s"
    unfolding control_of_fields(1) [symmetric] by (simp add: add_log_def Let_def publish_event_def)
  from assms c show ?thesis
    by (auto simp: run_cycle_def Let_def adj fst_get_total_raised last_total_finish_cycle
        split: sum.splits option.splits)
qed

section \<open>Properties of the displayed total\<close>

lemma digits_of_nat_small: "n < 10 \<Longrightarrow> digits_of_nat n = [digit_char n]"
  by (subst digits_of_nat.simps) simp

lemma digits_of_nat_large:
  "10 \<le> n \<Longrightarrow> digits_of_nat n = digits_of_nat (n div 10) @ [digit_char (n mod 10)]"
  by (subst digits_of_nat.simps) simp

lemmas dec_eval =
  ref_float_def dec_parse_def digit_val_def nat_of_digits_def dec_format_money_def dec_add_def
  dec_cents_def round_half_even_def two_digits_def digit_char_def digits_of_nat_small
  digits_of_nat_large dec_format_signed_def

lemmas display_eval =
  total_raised_display_def parse_total_def fallback_display_def str_of_def strip_currency_def

lemma run_cycle_completes:
  assumes "finite {u. \<exists>r. session_get env u = Inr r}" and "\<And>out. write_artifact env out = Inr ()"
    and "crawl_safe env"
  shows "\<exists>s'. run_cycle env fo s = Some (Completed s')"
proof -
  let ?s2 = "add_log Msg_begin_cycle (s\<lparr>status := (status s)\<lparr>next_refresh_in := Some 0\<rparr>\<rparr>)"
  from fetch_ends [OF assms(1), of URL "Some add_log" ?s2] assms(3)
  obtain c where "fetch_auction_items env URL (Some add_log) ?s2 = Some c" "raised c = None"
    by blast
  then show ?thesis by (simp add: run_cycle_def Let_def assms(2))
qed

lemma SUMMARY_URL_neq: "SUMMARY_URL \<noteq> URL" "SUMMARY_URL \<noteq> ex_page2"
  by (simp_all add: SUMMARY_URL_def URL_def ex_page2_def)

lemma ex_summary_fails: "session_get ex_env SUMMARY_URL = Inl (Request_error ''404 Client Error'')"
  by (simp add: ex_env_def ex_session_get_def SUMMARY_URL_neq)

lemma ex_cycle_completes: "\<exists>s'. run_cycle ex_env ref_float s = Some (Completed s')"
  by (rule run_cycle_completes [OF ex_pages_finite _ ex_env_safe]) (simp add: ex_env_def)

text \<open>
  Claim C4, as amended. When the request for the summary page fails, \<^verbatim>\<open>get_total_raised\<close>
  logs the error and returns \<^verbatim>\<open>None\<close>. The displayed total is then \<^verbatim>\<open>0.0\<close> plus the manual
  adjustment, formatted as a currency amount with two decimals: a numeric total, not
  the fallback string. A cycle that completes stores this string as \<open>last_total\<close>.
\<close>

theorem total_fetch_failure:
  "session_get env SUMMARY_URL = Inl e \<longrightarrow>
     get_total_raised env SUMMARY_URL s = (None, add_log (Msg_error_total (exception_text e)) s)
     \<and> total_raised_display fo (fst (get_total_raised env SUMMARY_URL s)) adj
         = ''$'' @ format_money fo (float_add fo (float_zero fo) adj)
     \<and> (\<forall>s'. run_cycle env fo s = Some (Completed s') \<longrightarrow>
           last_total (status s')
             = Some (''$'' @ format_money fo (float_add fo (float_zero fo) (manual_adjustment s))))"
proof (intro impI conjI allI)
  assume f: "session_get env SUMMARY_URL = Inl e"
  then show "get_total_raised env SUMMARY_URL s = (None, add_log (Msg_error_total (exception_text e)) s)"
    by (simp add: get_total_raised_def)
  from f show "total_raised_display fo (fst (get_total_raised env SUMMARY_URL s)) adj
         = ''$'' @ format_money fo (float_add fo (float_zero fo) adj)"
    by (simp add: get_total_raised_def total_raised_display_def parse_total_def)
  fix s' assume "run_cycle env fo s = Some (Completed s')"
  from run_cycle_last_total [OF this] f
  show "last_total (status s')
             = Some (''$'' @ format_money fo (float_add fo (float_zero fo) (manual_adjustment s)))"
    by (simp add: fetched_total_def total_raised_display_def parse_total_def)
qed

lemma ex_display_none: "total_raised_display ref_float None (5, 0) = ''$5.00''"
  by (simp add: display_eval dec_eval)

lemma ex_fallback_none: "fallback_display ref_float None (5, 0) = ''None (++5.00)''"
  by (simp add: display_eval dec_eval)

text \<open>
  The amended claim C4 on a run: the summary page fails and the adjustment is 5.0.
\<close>

theorem total_fetch_failure_witness:
  "session_get ex_env SUMMARY_URL = Inl (Request_error ''404 Client Error'')
   \<and> fst (get_total_raised ex_env SUMMARY_URL ex_state5) = None
   \<and> total_raised_display ref_float (fst (get_total_raised ex_env SUMMARY_URL ex_state5)) (5, 0) = ''$5.00''
   \<and> (\<exists>s'. run_cycle ex_env ref_float ex_state5 = Some (Completed s')
          \<and> last_total (status s') = Some ''$5.00'')"
proof -
  obtain s' where s': "run_cycle ex_env ref_float ex_state5 = Some (Completed s')"
    using ex_cycle_completes by blast
  have adj: "manual_adjustment ex_state5 = (5, 0)" by (simp add: ex_state5_def)
  have m: "''$'' @ format_money ref_float (float_add ref_float (float_zero ref_float) (5, 0)) = ''$5.00''"
    by (simp add: dec_eval)
  from total_fetch_failure [of ex_env "Request_error ''404 Client Error''" ex_state5 ref_float "(5, 0)"]
    ex_summary_fails s' adj m
  show ?thesis by auto
qed

text \<open>
  Claim C4 as stated fails: with a failed totals fetch and the adjustment 5.0 the cycle
  displays the numeric total \<open>$5.00\<close>, not the fallback string of line 277.
\<close>

theorem total_fetch_failure_counterexample:
  "fst (get_total_raised ex_env SUMMARY_URL ex_state5) = None
   \<and> total_raised_display ref_float None (5, 0) = ''$5.00''
   \<and> fallback_display ref_float None (5, 0) = ''None (++5.00)''
   \<and> (\<exists>s'. run_cycle ex_env ref_float ex_state5 = Some (Completed s')
          \<and> last_total (status s') = Some ''$5.00'')"
proof -
  obtain s' where s': "run_cycle ex_env ref_float ex_state5 = Some (Completed s')"
    using ex_cycle_completes by blast
  have "fetched_total ex_env = None"
    by (simp add: fetched_total_def ex_summary_fails)
  with run_cycle_last_total [OF s'] have "last_total (status s') = Some ''$5.00''"
    by (simp add: ex_state5_def ex_display_none)
  with s' show ?thesis
    by (auto simp: ex_display_none ex_fallback_none get_total_raised_def ex_summary_fails)
qed

text \<open>
  Claim C5, as amended. For a non-empty fetched total \<open>t\<close>: when \<^verbatim>\<open>float\<close> accepts \<open>t\<close>
  without its \<open>$\<close> and \<open>,\<close> characters, the display is \<open>$\<close> followed by the parsed value
  plus the adjustment in the format \<^verbatim>\<open>,.2f\<close>; when \<^verbatim>\<open>float\<close> raises, the display is \<open>t\<close>,
  then \<open> (+\<close>, the adjustment in the format \<^verbatim>\<open>+.2f\<close>, then \<open>)\<close>. The empty string is not
  parsed: like a missing total it counts as \<^verbatim>\<open>0.0\<close> and the display is numeric. A cycle
  that completes stores the display of the total it fetched as \<open>last_total\<close>.
\<close>

theorem total_display:
  "(t \<noteq> [] \<longrightarrow>
      total_raised_display fo (Some t) adj =
        (case float_of_str fo (strip_currency t) of
           Some x \<Rightarrow> ''$'' @ format_money fo (float_add fo x adj)
         | None \<Rightarrow> t @ '' (+'' @ format_signed fo adj @ '')''))
   \<and> total_raised_display fo (Some []) adj
        = ''$'' @ format_money fo (float_add fo (float_zero fo) adj)
   \<and> (\<forall>s'. run_cycle env fo s = Some (Completed s') \<longrightarrow>
         last_total (status s')
           = Some (total_raised_display fo (fetched_total env) (manual_adjustment s)))"
  by (auto simp: display_eval run_cycle_last_total split: option.splits)

lemma ex_total_pages_finite: "finite {u. \<exists>r. session_get (ex_env_total t) u = Inr r}"
proof -
  have "{u. \<exists>r. session_get (ex_env_total t) u = Inr r} \<subseteq> {SUMMARY_URL, URL, ex_page2}"
    by (auto simp: ex_env_total_def ex_env_def ex_session_get_def split: if_splits)
  then show ?thesis by (rule finite_subset) simp
qed

lemma ex_env_total_safe: "crawl_safe (ex_env_total t)"
  by (auto simp: crawl_safe_def ex_env_total_def ex_env_def ex_session_get_def split: if_splits)

lemma ex_total_cycle_completes: "\<exists>s'. run_cycle (ex_env_total t) ref_float s = Some (Completed s')"
  by (rule run_cycle_completes [OF ex_total_pages_finite _ ex_env_total_safe])
    (simp add: ex_env_total_def ex_env_def)

text \<open>
  The amended claim C5 on the examples of the specification: \<open>$100.00\<close> with the
  adjustment 12.5, and \<open>TBD\<close> with the adjustment 5.0.
\<close>

theorem total_display_witness:
  "''$100.00'' \<noteq> [] \<and> ''TBD'' \<noteq> []
   \<and> total_raised_display ref_float (Some ''$100.00'') (1250, 2) = ''$112.50''
   \<and> total_raised_display ref_float (Some ''$1,234.50'') (1250, 2) = ''$1,247.00''
   \<and> total_raised_display ref_float (Some ''TBD'') (5, 0) = ''TBD (++5.00)''
   \<and> (\<exists>s'. run_cycle (ex_env_total (Some ''$100.00'')) ref_float ex_state125 = Some (Completed s')
          \<and> last_total (status s') = Some ''$112.50'')"
proof -
  obtain s' where s': "run_cycle (ex_env_total (Some ''$100.00'')) ref_float ex_state125 = Some (Completed s')"
    using ex_total_cycle_completes by blast
  have ft: "fetched_total (ex_env_total (Some ''$100.00'')) = Some ''$100.00''"
    by (simp add: fetched_total_def ex_env_total_def)
  have adj: "manual_adjustment ex_state125 = (1250, 2)" by (simp add: ex_state125_def)
  have a: "total_raised_display ref_float (Some ''$100.00'') (1250, 2) = ''$112.50''"
    using total_display [of "''$100.00''" ref_float "(1250, 2)"] by (simp add: dec_eval strip_currency_def)
  have b: "total_raised_display ref_float (Some ''$1,234.50'') (1250, 2) = ''$1,247.00''"
    using total_display [of "''$1,234.50''" ref_float "(1250, 2)"] by (simp add: dec_eval strip_currency_def)
  have c: "total_raised_display ref_float (Some ''TBD'') (5, 0) = ''TBD (++5.00)''"
    using total_display [of "''TBD''" ref_float "(5, 0)"] by (simp add: dec_eval strip_currency_def)
  from total_display [of "''$100.00''" ref_float "(1250, 2)" "ex_env_total (Some ''$100.00'')" ex_state125] s'
  have "last_total (status s') = Some ''$112.50''"
    by (simp add: ft adj a)
  with s' a b c show ?thesis by auto
qed

text \<open>
  Claim C5 as stated fails on the empty string: \<^verbatim>\<open>float\<close> rejects it, yet the display
  is the numeric \<open>$5.00\<close> and not the fallback string.
\<close>

theorem total_display_counterexample:
  "float_of_str ref_float (strip_currency '''') = None
   \<and> total_raised_display ref_float (Some '''') (5, 0) = ''$5.00''
   \<and> fallback_display ref_float (Some '''') (5, 0) = '' (++5.00)''"
  by (simp add: display_eval dec_eval)

section \<open>Properties of the EventBus\<close>

lemma length_foldl_deliver [simp]: "length (foldl (deliver p) heap qs) = length heap"
  by (induction qs arbitrary: heap) simp_all

lemma nth_foldl_deliver:
  "distinct qs \<Longrightarrow> j < length heap \<Longrightarrow>
   foldl (deliver p) heap qs ! j =
     (if j \<in> set qs \<and> \<not> full (heap ! j) then (heap ! j)\<lparr>contents := contents (heap ! j) @ [p]\<rparr>
      else heap ! j)"
proof (induction qs arbitrary: heap)
  case Nil
  then show ?case by simp
next
  case (Cons q qs)
  then have "foldl (deliver p) (deliver p heap q) qs ! j =
     (if j \<in> set qs \<and> \<not> full (deliver p heap q ! j)
      then (deliver p heap q ! j)\<lparr>contents := contents (deliver p heap q ! j) @ [p]\<rparr>
      else deliver p heap q ! j)"
    by simp
  with Cons.prems show ?case
    by (auto simp: nth_deliver)
qed

lemma wf_bus_control_of: "wf_bus (control_of s) = wf_bus s"
  by (simp add: wf_bus_def control_of_def list_all_iff)

lemma wf_bus_cong: "control_of s' = control_of s \<Longrightarrow> wf_bus s' = wf_bus s"
  by (metis wf_bus_control_of)

lemma unbounded_not_full: "maxsize q = 0 \<Longrightarrow> \<not> full q"
  by (simp add: full_def)

lemma publish_general:
  assumes "distinct (event_subscribers s)" "q < length (queue_heap s)"
  shows "queue_heap (publish_event p s) ! q =
          (if q \<in> set (event_subscribers s) \<and> \<not> full (queue_heap s ! q)
           then (queue_heap s ! q)\<lparr>contents := contents (queue_heap s ! q) @ [p]\<rparr>
           else queue_heap s ! q)"
  using assms by (simp add: publish_event_def nth_foldl_deliver)

lemma publish_wf:
  assumes "wf_bus s" "q < length (queue_heap s)"
  shows "queue_heap (publish_event p s) ! q =
          (if q \<in> set (event_subscribers s)
           then (queue_heap s ! q)\<lparr>contents := contents (queue_heap s ! q) @ [p]\<rparr>
           else queue_heap s ! q)"
proof -
  from assms have "maxsize (queue_heap s ! q) = 0"
    by (simp add: wf_bus_def list_all_length)
  then have "\<not> full (queue_heap s ! q)"
    by (rule unbounded_not_full)
  with assms show ?thesis
    by (simp add: publish_general wf_bus_def)
qed

lemma subscribe_wf:
  assumes "wf_bus s"
  shows "fst (subscribe_events s) = length (queue_heap s)"
    and "fst (subscribe_events s) \<notin> set (event_subscribers s)"
    and "fst (subscribe_events s) \<in> set (event_subscribers (snd (subscribe_events s)))"
    and "queue_heap (snd (subscribe_events s)) ! fst (subscribe_events s) = Queue 0"
    and "wf_bus (snd (subscribe_events s))"
    and "\<forall>j<length (queue_heap s). queue_heap (snd (subscribe_events s)) ! j = queue_heap s ! j"
  using assms
  by (auto simp: subscribe_events_def Let_def wf_bus_def list_all_iff Queue_def nth_append)

lemma wf_bus_unsubscribe: "wf_bus s \<Longrightarrow> wf_bus (unsubscribe_events q s)"
  by (auto simp: unsubscribe_events_def wf_bus_def list_all_iff distinct_removeAll)

lemma wf_bus_queue_get: "wf_bus s \<Longrightarrow> wf_bus (queue_get q s)"
  by (auto simp: queue_get_def wf_bus_def list_all_iff split: list.splits dest!: set_update_subset_insert [THEN subsetD])

lemma wf_bus_initial: "wf_bus (initial_state fo)"
  by (simp add: wf_bus_def initial_state_def)

lemma wf_bus_publish_event [simp]: "wf_bus (publish_event p s) = wf_bus s"
  by (rule wf_bus_cong) simp

lemma wf_bus_add_log [simp]: "wf_bus (add_log m s) = wf_bus s"
  by (rule wf_bus_cong) simp

lemma wf_bus_status_update [simp]: "wf_bus (s\<lparr>status := st\<rparr>) = wf_bus s"
  by (simp add: wf_bus_def)

lemma wf_bus_update_status [simp]: "wf_bus (snd (update_status kw s)) = wf_bus s"
  by (simp add: update_status_def Let_def)

lemma wf_bus_finish_cycle [simp]: "wf_bus (finish_cycle st k d s) = wf_bus s"
  by (simp add: finish_cycle_def Let_def)

lemma wf_bus_run_cycle:
  assumes "run_cycle env fo s = Some out"
  shows "case out of Completed s' \<Rightarrow> wf_bus s' = wf_bus s | Raised e s' \<Rightarrow> wf_bus s' = wf_bus s"
proof -
  let ?s2 = "add_log Msg_begin_cycle (s\<lparr>status := (status s)\<lparr>next_refresh_in := Some 0\<rparr>\<rparr>)"
  from assms obtain c where c: "fetch_auction_items env URL (Some add_log) ?s2 = Some c"
    by (auto simp: run_cycle_def Let_def split: option.splits)
  have "wf_bus (crawl_state c) = wf_bus ?s2"
    using control_of_fetch [OF c] by (rule wf_bus_cong)
  then have a: "wf_bus (crawl_state c) = wf_bus s" by simp
  let ?s3 = "log_filtered (snd (apply_filters_to_items (str_lower env) (filters (crawl_state c))
      (crawl_items c))) (crawl_state c)"
  let ?s4 = "snd (get_total_raised env SUMMARY_URL ?s3)"
  have "control_of ?s4 = control_of (crawl_state c)" by simp
  then have b: "wf_bus ?s4 = wf_bus s" using a wf_bus_cong by blast
  from assms c a b show ?thesis
    by (auto simp: run_cycle_def Let_def split: sum.splits option.splits)
qed

lemma wf_bus_sleep [simp]: "wf_bus (sleep n s) = wf_bus s"
  by (simp add: wf_bus_def sleep_def)

lemma wf_bus_set_next [simp]: "wf_bus (set_next_refresh_in v s) = wf_bus s"
  by (simp add: set_next_refresh_in_def)

lemma wf_bus_refresh_now [simp]: "wf_bus (s\<lparr>refresh_now := b\<rparr>) = wf_bus s"
  by (simp add: wf_bus_def)

lemma wf_bus_sched_step: "wf_bus (globals t) \<Longrightarrow> wf_bus (globals (sched_step env fo t))"
proof (cases "pc t")
  case Run_cycle
  assume w: "wf_bus (globals t)"
  show ?thesis
  proof (cases "run_cycle env fo (globals t)")
    case None
    with Run_cycle w show ?thesis by (simp add: sched_step_def Let_def)
  next
    case (Some out)
    from wf_bus_run_cycle [OF Some] Run_cycle Some w show ?thesis
      by (cases out) (simp_all add: sched_step_def Let_def)
  qed
qed (simp_all add: sched_step_def Let_def)

lemma wf_bus_handler_step: "wf_bus s \<Longrightarrow> wf_bus (handler_step a s)"
  by (cases a) (simp_all add: handler_step_def subscribe_wf wf_bus_unsubscribe wf_bus_queue_get, simp_all add: wf_bus_def)

lemma wf_bus_step: "wf_bus (globals t) \<Longrightarrow> wf_bus (globals (step env fo t a))"
  by (cases a) (simp_all add: step_def wf_bus_sched_step wf_bus_handler_step)

lemma wf_bus_run: "wf_bus (globals t) \<Longrightarrow> wf_bus (globals (run env fo as t))"
  unfolding run_def by (induction as arbitrary: t) (simp_all add: wf_bus_step)

lemma wf_bus_reachable: "wf_bus (globals (run env fo as (main fo)))"
  by (rule wf_bus_run) (simp add: main_def wf_bus_initial)

text \<open>
  Claim C9, as amended. In every state the program reaches, the bus is well formed: in
  particular every queue has \<^verbatim>\<open>maxsize\<close> zero, so no queue has a capacity bound.
  \<^verbatim>\<open>subscribe_events\<close> makes a new queue of its own (a fresh index, \<^verbatim>\<open>Queue()\<close> with
  no bound) and registers it. In a well-formed state \<^verbatim>\<open>publish_event\<close> appends the
  event to the queue of every registered subscriber and changes no other queue: no
  event is dropped, and what one subscriber's queue holds has no effect on the
  delivery to another. The last part is \<^verbatim>\<open>publish_event\<close> on any registry without
  repetition, bounded queues included: a queue is skipped exactly when it is full, and
  every other registered queue still gets the event.
\<close>

theorem publish_delivers:
  "wf_bus (globals (run env fo as (main fo)))
   \<and> (wf_bus s \<longrightarrow>
        fst (subscribe_events s) = length (queue_heap s)
        \<and> fst (subscribe_events s) \<notin> set (event_subscribers s)
        \<and> fst (subscribe_events s) \<in> set (event_subscribers (snd (subscribe_events s)))
        \<and> queue_heap (snd (subscribe_events s)) ! fst (subscribe_events s) = Queue 0
        \<and> wf_bus (snd (subscribe_events s)))
   \<and> (wf_bus s \<longrightarrow>
        length (queue_heap (publish_event p s)) = length (queue_heap s)
        \<and> (\<forall>q<length (queue_heap s).
              queue_heap (publish_event p s) ! q =
                (if q \<in> set (event_subscribers s)
                 then (queue_heap s ! q)\<lparr>contents := contents (queue_heap s ! q) @ [p]\<rparr>
                 else queue_heap s ! q)))
   \<and> (distinct (event_subscribers s) \<longrightarrow>
        (\<forall>q<length (queue_heap s).
              queue_heap (publish_event p s) ! q =
                (if q \<in> set (event_subscribers s) \<and> \<not> full (queue_heap s ! q)
                 then (queue_heap s ! q)\<lparr>contents := contents (queue_heap s ! q) @ [p]\<rparr>
                 else queue_heap s ! q)))"
proof (intro conjI impI allI)
  show "wf_bus (globals (run env fo as (main fo)))" by (rule wf_bus_reachable)
next
  assume "wf_bus s"
  then show "length (queue_heap (publish_event p s)) = length (queue_heap s)"
    by (simp add: publish_event_def)
next
  fix q assume "wf_bus s" "q < length (queue_heap s)"
  then show "queue_heap (publish_event p s) ! q =
                (if q \<in> set (event_subscribers s)
                 then (queue_heap s ! q)\<lparr>contents := contents (queue_heap s ! q) @ [p]\<rparr>
                 else queue_heap s ! q)"
    by (rule publish_wf)
next
  fix q assume "distinct (event_subscribers s)" "q < length (queue_heap s)"
  then show "queue_heap (publish_event p s) ! q =
                (if q \<in> set (event_subscribers s) \<and> \<not> full (queue_heap s ! q)
                 then (queue_heap s ! q)\<lparr>contents := contents (queue_heap s ! q) @ [p]\<rparr>
                 else queue_heap s ! q)"
    by (rule publish_general)
qed (insert subscribe_wf [of s], auto)

lemma length_heap_publish [simp]: "length (queue_heap (publish_event p s)) = length (queue_heap s)"
  by (simp add: publish_event_def)

lemma subscribers_publish [simp]: "event_subscribers (publish_event p s) = event_subscribers s"
  by (simp add: publish_event_def)

lemma add_log_delivers:
  assumes "wf_bus s" "q \<in> set (event_subscribers s)"
  shows "contents (queue_heap (add_log m s) ! q)
           = contents (queue_heap s ! q) @ [Log_event \<lparr>timestamp = clock s, message = m\<rparr>]"
proof -
  let ?s1 = "s\<lparr>log_entries := append_capped \<lparr>timestamp = clock s, message = m\<rparr> (log_entries s)\<rparr>"
  have w: "wf_bus ?s1" using assms(1) by (simp add: wf_bus_def)
  have q: "q < length (queue_heap ?s1)" using assms by (auto simp: wf_bus_def list_all_iff)
  show ?thesis
    using publish_wf [OF w q] assms(2) by (simp add: add_log_def Let_def)
qed

lemma subscribers_add_log [simp]: "event_subscribers (add_log m s) = event_subscribers s"
  by (simp add: add_log_def Let_def)

lemma add_logs_backlog:
  assumes "wf_bus s" "q \<in> set (event_subscribers s)"
  shows "length (contents (queue_heap (add_logs msgs s) ! q))
           = length (contents (queue_heap s ! q)) + length msgs"
proof (induction msgs rule: rev_induct)
  case Nil
  show ?case by (simp add: add_logs_def)
next
  case (snoc m msgs)
  have w: "wf_bus (add_logs msgs s)"
    using assms(1) by (induction msgs rule: rev_induct) (simp_all add: add_logs_snoc, simp add: add_logs_def)
  have q: "q \<in> set (event_subscribers (add_logs msgs s))"
    using assms(2) by (induction msgs rule: rev_induct) (simp_all add: add_logs_snoc, simp add: add_logs_def)
  show ?case
    by (simp add: add_logs_snoc add_log_delivers [OF w q] snoc.IH)
qed

text \<open>
  Claim C9 as stated fails: the queue of a subscriber has no bounded capacity. After
  \<^verbatim>\<open>subscribe_events\<close> on the initial state, no number bounds the length of the new
  queue over all runs of \<^verbatim>\<open>add_log\<close> calls (each publishes one event).
\<close>

theorem subscriber_queue_unbounded_counterexample:
  "\<not> (\<exists>cap. \<forall>msgs.
        length (contents (queue_heap
          (add_logs msgs (snd (subscribe_events (initial_state ref_float)))) ! 0)) \<le> cap)"
proof
  assume "\<exists>cap. \<forall>msgs.
        length (contents (queue_heap
          (add_logs msgs (snd (subscribe_events (initial_state ref_float)))) ! 0)) \<le> cap"
  then obtain cap where cap: "\<And>msgs. length (contents (queue_heap
          (add_logs msgs (snd (subscribe_events (initial_state ref_float)))) ! 0)) \<le> cap"
    by blast
  let ?s = "snd (subscribe_events (initial_state ref_float))"
  have w: "wf_bus ?s" by (simp add: subscribe_wf wf_bus_initial)
  have q: "0 \<in> set (event_subscribers ?s)"
    by (simp add: subscribe_events_def initial_state_def Let_def)
  from add_logs_backlog [OF w q, of "replicate (Suc cap) Msg_paused"] cap [of "replicate (Suc cap) Msg_paused"]
  show False by simp
qed

lemma ex_two_subscribers_eval:
  "event_subscribers ex_two_subscribers = [1, 0]"
  "queue_heap ex_two_subscribers = [\<lparr>maxsize = 0, contents = [Log_event ex_entry]\<rparr>, Queue 0]"
  by (simp_all add: ex_two_subscribers_def subscribe_events_def initial_state_def Let_def add_log_def
      publish_event_def deliver_def put_def full_def Queue_def ex_entry_def)

text \<open>
  The amended claim C9 on two states: two subscribers of which the first has a
  backlog, and a hand-made state whose first queue is bounded and full.
\<close>

theorem publish_delivers_witness:
  "wf_bus ex_two_subscribers
   \<and> contents (queue_heap (publish_event ex_event ex_two_subscribers) ! 0) = [Log_event ex_entry, ex_event]
   \<and> contents (queue_heap (publish_event ex_event ex_two_subscribers) ! 1) = [ex_event]
   \<and> distinct (event_subscribers ex_bounded)
   \<and> full (queue_heap ex_bounded ! 0)
   \<and> contents (queue_heap (publish_event ex_event ex_bounded) ! 0) = [Log_event ex_entry]
   \<and> contents (queue_heap (publish_event ex_event ex_bounded) ! 1) = [ex_event]"
proof -
  have w: "wf_bus ex_two_subscribers"
    by (simp add: wf_bus_def ex_two_subscribers_eval Queue_def)
  have d: "distinct (event_subscribers ex_bounded)"
    by (simp add: ex_bounded_def)
  have f: "full (queue_heap ex_bounded ! 0)"
    by (simp add: ex_bounded_def full_def)
  from publish_delivers [of ex_env ref_float "[]" ex_two_subscribers ex_event] w
  have a: "\<forall>q<2. queue_heap (publish_event ex_event ex_two_subscribers) ! q =
                (if q \<in> set (event_subscribers ex_two_subscribers)
                 then (queue_heap ex_two_subscribers ! q)\<lparr>contents := contents (queue_heap ex_two_subscribers ! q) @ [ex_event]\<rparr>
                 else queue_heap ex_two_subscribers ! q)"
    by (simp add: ex_two_subscribers_eval(2))
  from publish_delivers [of ex_env ref_float "[]" ex_bounded ex_event] d
  have b: "\<forall>q<2. queue_heap (publish_event ex_event ex_bounded) ! q =
                (if q \<in> set (event_subscribers ex_bounded) \<and> \<not> full (queue_heap ex_bounded ! q)
                 then (queue_heap ex_bounded ! q)\<lparr>contents := contents (queue_heap ex_bounded ! q) @ [ex_event]\<rparr>
                 else queue_heap ex_bounded ! q)"
    by (simp add: ex_bounded_def)
  have a0: "contents (queue_heap (publish_event ex_event ex_two_subscribers) ! 0) = [Log_event ex_entry, ex_event]"
    using a [rule_format, of 0] by (simp add: ex_two_subscribers_eval)
  have a1: "contents (queue_heap (publish_event ex_event ex_two_subscribers) ! 1) = [ex_event]"
    using a [rule_format, of 1] by (simp add: ex_two_subscribers_eval Queue_def)
  have b0: "contents (queue_heap (publish_event ex_event ex_bounded) ! 0) = [Log_event ex_entry]"
    using b [rule_format, of 0] f by (simp add: ex_bounded_def)
  have b1: "contents (queue_heap (publish_event ex_event ex_bounded) ! 1) = [ex_event]"
    using b [rule_format, of 1] by (simp add: ex_bounded_def Queue_def full_def)
  from w d f a0 a1 b0 b1 show ?thesis by blast
qed

section \<open>Properties of the scheduler\<close>

lemma control_of_status [simp]: "control_of (s\<lparr>status := st\<rparr>) = (control_of s)\<lparr>status := st\<rparr>"
  by (simp add: control_of_def)

lemma control_of_update_status: "control_of (snd (update_status kw s)) = (control_of s)\<lparr>status := status (snd (update_status kw s))\<rparr>"
  by (simp add: update_status_def Let_def control_of_def publish_event_def)

lemma control_of_finish_cycle:
  "\<exists>st. control_of (finish_cycle a k d s) = (control_of s)\<lparr>status := st\<rparr>"
proof -
  let ?s3 = "add_log (Msg_total d) (add_log (Msg_saved (length k)) (add_log (Msg_completed (clock s - a)) s))"
  have "control_of ?s3 = control_of s" by simp
  then show ?thesis
    using control_of_update_status [of "[Last_total d, Last_refresh (clock s), Next_refresh_in (Some REFRESH_INTERVAL)]" ?s3]
    by (auto simp: finish_cycle_def Let_def)
qed

lemma control_of_run_cycle:
  assumes "run_cycle env fo s = Some out"
  shows "\<exists>st. control_of (outcome_state out) = (control_of s)\<lparr>status := st\<rparr>"
proof -
  let ?s1 = "s\<lparr>status := (status s)\<lparr>next_refresh_in := Some 0\<rparr>\<rparr>"
  let ?s2 = "add_log Msg_begin_cycle ?s1"
  from assms obtain c where c: "fetch_auction_items env URL (Some add_log) ?s2 = Some c"
    by (auto simp: run_cycle_def Let_def split: option.splits)
  let ?s3 = "log_filtered (snd (apply_filters_to_items (str_lower env) (filters (crawl_state c))
      (crawl_items c))) (crawl_state c)"
  let ?s4 = "snd (get_total_raised env SUMMARY_URL ?s3)"
  have s2: "control_of (crawl_state c) = (control_of s)\<lparr>status := (status s)\<lparr>next_refresh_in := Some 0\<rparr>\<rparr>"
    using control_of_fetch [OF c] by simp
  then have s4: "control_of ?s4 = (control_of s)\<lparr>status := (status s)\<lparr>next_refresh_in := Some 0\<rparr>\<rparr>"
    by simp
  show ?thesis
  proof (cases out)
    case (Raised e g)
    with assms c have "g = ?s4 \<or> g = crawl_state c"
      by (auto simp: run_cycle_def Let_def split: sum.splits option.splits)
    with Raised s2 s4 show ?thesis by (auto simp: outcome_state_def)
  next
    case (Completed g)
    with assms c obtain a k d where "g = finish_cycle a k d ?s4"
      by (auto simp: run_cycle_def Let_def split: sum.splits option.splits)
    with control_of_finish_cycle [of a k d ?s4] s4 Completed show ?thesis
      by (auto simp: outcome_state_def)
  qed
qed

lemma run_cycle_flags:
  assumes "run_cycle env fo s = Some out"
  shows "refresh_paused (outcome_state out) = refresh_paused s"
    and "refresh_now (outcome_state out) = refresh_now s"
proof -
  from control_of_run_cycle [OF assms] obtain st where
    e: "control_of (outcome_state out) = (control_of s)\<lparr>status := st\<rparr>" by blast
  have "refresh_paused (control_of (outcome_state out)) = refresh_paused (control_of s)"
    unfolding e by simp
  then show "refresh_paused (outcome_state out) = refresh_paused s"
    by (simp add: control_of_def)
  have "refresh_now (control_of (outcome_state out)) = refresh_now (control_of s)"
    unfolding e by simp
  then show "refresh_now (outcome_state out) = refresh_now s"
    by (simp add: control_of_def)
qed

lemma sched_step_Run_cycle:
  assumes "pc t = Run_cycle"
  shows "cycles (sched_step env fo t) = cycles t + 1"
    and "trigger_cycles (sched_step env fo t) = trigger_cycles t + (if do_refresh_now t then 1 else 0)"
    and "pc (sched_step env fo t) = Loop_head \<or> pc (sched_step env fo t) = Hung \<or> (\<exists>e. pc (sched_step env fo t) = Stopped e)"
    and "refresh_paused (globals (sched_step env fo t)) = refresh_paused (globals t)"
    and "refresh_now (globals (sched_step env fo t)) = refresh_now (globals t)"
    and "paused (sched_step env fo t) = paused t"
    and "do_refresh_now (sched_step env fo t) = do_refresh_now t"
proof -
  show "cycles (sched_step env fo t) = cycles t + 1"
    using assms by (auto simp: sched_step_def Let_def split: option.splits outcome.splits)
  show "trigger_cycles (sched_step env fo t) = trigger_cycles t + (if do_refresh_now t then 1 else 0)"
    using assms by (auto simp: sched_step_def Let_def split: option.splits outcome.splits)
  show "pc (sched_step env fo t) = Loop_head \<or> pc (sched_step env fo t) = Hung \<or> (\<exists>e. pc (sched_step env fo t) = Stopped e)"
    using assms by (auto simp: sched_step_def Let_def split: option.splits outcome.splits)
  show "paused (sched_step env fo t) = paused t"
    using assms by (auto simp: sched_step_def Let_def split: option.splits outcome.splits)
  show "do_refresh_now (sched_step env fo t) = do_refresh_now t"
    using assms by (auto simp: sched_step_def Let_def split: option.splits outcome.splits)
  show "refresh_paused (globals (sched_step env fo t)) = refresh_paused (globals t)"
  proof (cases "run_cycle env fo (globals t)")
    case None
    with assms show ?thesis by (simp add: sched_step_def Let_def)
  next
    case (Some out)
    from run_cycle_flags(1) [OF Some] assms Some show ?thesis
      by (cases out) (simp_all add: sched_step_def Let_def outcome_state_def)
  qed
  show "refresh_now (globals (sched_step env fo t)) = refresh_now (globals t)"
  proof (cases "run_cycle env fo (globals t)")
    case None
    with assms show ?thesis by (simp add: sched_step_def Let_def)
  next
    case (Some out)
    from run_cycle_flags(2) [OF Some] assms Some show ?thesis
      by (cases out) (simp_all add: sched_step_def Let_def outcome_state_def)
  qed
qed

lemma refresh_paused_add_log [simp]: "refresh_paused (add_log m s) = refresh_paused s"
  by (simp add: add_log_def Let_def publish_event_def)

lemma refresh_now_add_log [simp]: "refresh_now (add_log m s) = refresh_now s"
  by (simp add: add_log_def Let_def publish_event_def)

lemma flags_update_status [simp]:
  "refresh_paused (snd (update_status kw s)) = refresh_paused s"
  "refresh_now (snd (update_status kw s)) = refresh_now s"
  by (simp_all add: update_status_def Let_def publish_event_def)

lemma flags_misc [simp]:
  "refresh_paused (sleep n s) = refresh_paused s"
  "refresh_now (sleep n s) = refresh_now s"
  "refresh_paused (set_next_refresh_in v s) = refresh_paused s"
  "refresh_now (set_next_refresh_in v s) = refresh_now s"
  "refresh_paused (snd (subscribe_events s)) = refresh_paused s"
  "refresh_now (snd (subscribe_events s)) = refresh_now s"
  "refresh_paused (unsubscribe_events q s) = refresh_paused s"
  "refresh_now (unsubscribe_events q s) = refresh_now s"
  "refresh_paused (queue_get q s) = refresh_paused s"
  "refresh_now (queue_get q s) = refresh_now s"
  by (simp_all add: sleep_def set_next_refresh_in_def subscribe_events_def Let_def
      unsubscribe_events_def queue_get_def split: list.splits)

lemma sched_step_paused_flag [simp]:
  "refresh_paused (globals (sched_step env fo t)) = refresh_paused (globals t)"
proof (cases "pc t")
  case Run_cycle
  then show ?thesis by (rule sched_step_Run_cycle)
qed (simp_all add: sched_step_def Let_def)

lemma handler_frame [simp]:
  "a \<noteq> Sched \<Longrightarrow> pc (step env fo t a) = pc t"
  "a \<noteq> Sched \<Longrightarrow> paused (step env fo t a) = paused t"
  "a \<noteq> Sched \<Longrightarrow> do_refresh_now (step env fo t a) = do_refresh_now t"
  "a \<noteq> Sched \<Longrightarrow> cycles (step env fo t a) = cycles t"
  "a \<noteq> Sched \<Longrightarrow> trigger_cycles (step env fo t a) = trigger_cycles t"
  "a \<noteq> Sched \<Longrightarrow> globals (step env fo t a) = handler_step a (globals t)"
  by (cases a; simp add: step_def)+

lemma step_Sched [simp]: "step env fo t Sched = sched_step env fo t"
  by (simp add: step_def)

lemma handler_paused_flag:
  "a \<noteq> Set_paused False \<Longrightarrow> refresh_paused s \<Longrightarrow> refresh_paused (handler_step a s)"
  by (cases a) (simp_all add: handler_step_def)


lemma handler_holding [simp]: "a \<noteq> Sched \<Longrightarrow> holding (step env fo t a) = holding t"
  by (cases "pc t") (simp_all add: holding_def)


lemma sched_step_due:
  assumes "refresh_paused (globals t)"
  shows "cycles (sched_step env fo t) + due (sched_step env fo t) \<le> cycles t + due t"
proof (cases "pc t")
  case Run_cycle
  from sched_step_Run_cycle(3) [OF Run_cycle, of env fo]
  have "holding (sched_step env fo t)" by (auto simp: holding_def)
  with sched_step_Run_cycle(1) [OF Run_cycle, of env fo] Run_cycle show ?thesis
    by (simp add: due_def holding_def)
qed (insert assms, simp_all add: sched_step_def Let_def due_def holding_def countdown_from_def)

lemma sched_step_cycles_mono: "cycles t \<le> cycles (sched_step env fo t)"
proof (cases "pc t")
  case Run_cycle
  with sched_step_Run_cycle(1) [OF Run_cycle, of env fo] show ?thesis by simp
qed (simp_all add: sched_step_def Let_def)

lemma step_due:
  assumes "refresh_paused (globals t)" "a \<noteq> Set_paused False"
  shows "cycles (step env fo t a) + due (step env fo t a) \<le> cycles t + due t"
    and "refresh_paused (globals (step env fo t a))"
    and "cycles t \<le> cycles (step env fo t a)"
proof -
  show "cycles (step env fo t a) + due (step env fo t a) \<le> cycles t + due t"
  proof (cases "a = Sched")
    case True
    with assms show ?thesis by (simp add: sched_step_due)
  next
    case False
    then show ?thesis by (simp add: due_def)
  qed
  show "refresh_paused (globals (step env fo t a))"
  proof (cases "a = Sched")
    case True
    with assms show ?thesis by simp
  next
    case False
    with assms show ?thesis by (simp add: handler_paused_flag)
  qed
  show "cycles t \<le> cycles (step env fo t a)"
    by (cases "a = Sched") (simp_all add: sched_step_cycles_mono)
qed

lemma run_Nil [simp]: "run env fo [] t = t"
  by (simp add: run_def)

lemma run_Cons [simp]: "run env fo (a # as) t = run env fo as (step env fo t a)"
  by (simp add: run_def)

lemma run_append: "run env fo (as @ bs) t = run env fo bs (run env fo as t)"
  by (simp add: run_def)

lemma run_due:
  "refresh_paused (globals t) \<Longrightarrow> Set_paused False \<notin> set as \<Longrightarrow>
     cycles (run env fo as t) + due (run env fo as t) \<le> cycles t + due t
     \<and> refresh_paused (globals (run env fo as t))
     \<and> cycles t \<le> cycles (run env fo as t)"
proof (induction as arbitrary: t)
  case Nil
  then show ?case by simp
next
  case (Cons a as)
  from Cons.prems have a: "a \<noteq> Set_paused False" and as: "Set_paused False \<notin> set as" by auto
  note s = step_due [OF Cons.prems(1) a, of env fo]
  from Cons.IH [OF s(2) as] s(1) s(3) show ?case by simp
qed




lemma run_cycle_raises:
  assumes "finite {u. \<exists>r. session_get env u = Inr r}" and "\<And>out. write_artifact env out = Inl e"
    and "crawl_safe env"
  shows "\<exists>g. run_cycle env fo s = Some (Raised e g)"
proof -
  let ?s2 = "add_log Msg_begin_cycle (s\<lparr>status := (status s)\<lparr>next_refresh_in := Some 0\<rparr>\<rparr>)"
  from fetch_ends [OF assms(1), of URL "Some add_log" ?s2] assms(3)
  obtain c where "fetch_auction_items env URL (Some add_log) ?s2 = Some c" "raised c = None"
    by blast
  then show ?thesis by (simp add: run_cycle_def Let_def assms(2))
qed

lemma stopped_step: "pc t = Stopped e \<Longrightarrow> pc (step env fo t a) = Stopped e \<and> cycles (step env fo t a) = cycles t"
  by (cases "a = Sched") (simp_all add: sched_step_def)

lemma stopped_forever:
  "pc t = Stopped e \<Longrightarrow> pc (run env fo as t) = Stopped e \<and> cycles (run env fo as t) = cycles t"
proof (induction as arbitrary: t)
  case Nil
  then show ?case by simp
next
  case (Cons a as)
  from stopped_step [OF Cons.prems, of env fo a] Cons.IH [of "step env fo t a"]
  show ?case by simp
qed

lemma countdown_turn:
  assumes "pc t = Count_check_paused i" "\<not> paused t" "\<not> refresh_paused (globals t)"
    "\<not> refresh_now (globals t)"
  shows "run env fo [Sched, Sched, Sched] t =
           t\<lparr>pc := countdown_from (i - 1),
             globals := sleep 1 (set_next_refresh_in (Some i) (globals t))\<rparr>"
  using assms by (simp add: sched_step_def Let_def)

lemma replicate_3_Suc: "replicate (3 * Suc i) x = x # x # x # replicate (3 * i) x"
proof -
  have "3 * Suc i = Suc (Suc (Suc (3 * i)))" by simp
  then show ?thesis by (simp only: replicate_Suc)
qed

lemma countdown_runs:
  assumes "pc t = Count_check_paused i" "0 < i" "\<not> paused t" "\<not> refresh_paused (globals t)"
    "\<not> refresh_now (globals t)"
  shows "pc (run env fo (replicate (3 * i) Sched) t) = After_countdown
     \<and> \<not> paused (run env fo (replicate (3 * i) Sched) t)
     \<and> \<not> refresh_paused (globals (run env fo (replicate (3 * i) Sched) t))
     \<and> \<not> refresh_now (globals (run env fo (replicate (3 * i) Sched) t))
     \<and> cycles (run env fo (replicate (3 * i) Sched) t) = cycles t
     \<and> trigger_cycles (run env fo (replicate (3 * i) Sched) t) = trigger_cycles t
     \<and> do_refresh_now (run env fo (replicate (3 * i) Sched) t) = do_refresh_now t"
  using assms
proof (induction i arbitrary: t)
  case 0
  then show ?case by simp
next
  case (Suc i)
  let ?t1 = "t\<lparr>pc := countdown_from (Suc i - 1),
             globals := sleep 1 (set_next_refresh_in (Some (Suc i)) (globals t))\<rparr>"
  have r: "run env fo (replicate (3 * Suc i) Sched) t = run env fo (replicate (3 * i) Sched) ?t1"
    unfolding replicate_3_Suc using countdown_turn [OF Suc.prems(1,3,4,5), of env fo]
    by (simp del: replicate_Suc)
  show ?case
  proof (cases i)
    case 0
    then show ?thesis unfolding r using Suc.prems by (simp add: countdown_from_def)
  next
    case (Suc j)
    then have "pc ?t1 = Count_check_paused i" by (simp add: countdown_from_def)
    from Suc.IH [OF this] Suc Suc.prems show ?thesis unfolding r by simp
  qed
qed

lemma main_countdown:
  "pc (run env fo (replicate 33 Sched) (main fo)) = After_countdown
   \<and> \<not> paused (run env fo (replicate 33 Sched) (main fo))
   \<and> \<not> refresh_paused (globals (run env fo (replicate 33 Sched) (main fo)))
   \<and> \<not> refresh_now (globals (run env fo (replicate 33 Sched) (main fo)))
   \<and> cycles (run env fo (replicate 33 Sched) (main fo)) = 0
   \<and> trigger_cycles (run env fo (replicate 33 Sched) (main fo)) = 0
   \<and> \<not> do_refresh_now (run env fo (replicate 33 Sched) (main fo))"
proof -
  let ?t3 = "run env fo [Sched, Sched, Sched] (main fo)"
  have t3: "pc ?t3 = Count_check_paused 10" "\<not> paused ?t3" "\<not> refresh_paused (globals ?t3)"
    "\<not> refresh_now (globals ?t3)" "cycles ?t3 = 0" "trigger_cycles ?t3 = 0" "\<not> do_refresh_now ?t3"
    by (simp_all add: sched_step_def Let_def main_def initial_state_def REFRESH_INTERVAL_def
        countdown_from_def)
  have "replicate 33 Sched = [Sched, Sched, Sched] @ replicate (3 * 10) (Sched :: 'a action)"
    by (simp add: numeral_eq_Suc)
  then have "run env fo (replicate 33 Sched) (main fo) = run env fo (replicate (3 * 10) Sched) ?t3"
    by (simp only: run_append)
  with countdown_runs [OF t3(1) _ t3(2,3,4), of env fo] t3 show ?thesis by simp
qed

lemma ex_disk_full_pages: "finite {u. \<exists>r. session_get ex_env_disk_full u = Inr r}"
  using ex_pages_finite by (simp add: ex_env_disk_full_def)

lemma ex_disk_full_safe: "crawl_safe ex_env_disk_full"
  using ex_env_safe by (simp add: crawl_safe_def ex_env_disk_full_def)

lemma ex_disk_full_raises:
  "\<exists>g. run_cycle ex_env_disk_full ref_float s
          = Some (Raised (OS_error ''[Errno 28] No space left on device'') g)"
  by (rule run_cycle_raises [OF ex_disk_full_pages _ ex_disk_full_safe])
    (simp add: ex_env_disk_full_def)

text \<open>
  Claim C6 fails on the code. With a site that answers and a disk that is full, the
  exception of the artifact write leaves the cycle and the loop of \<^verbatim>\<open>main\<close>: a
  scheduler about to run a cycle ends in \<open>Stopped\<close> after that one step, and whatever
  happens afterwards it stays there and starts no further cycle. From the start of
  the program the first cycle is reached after 34 scheduler steps, and it is the last.
\<close>

theorem artifact_write_failure:
  "pc (run ex_env_disk_full ref_float (Sched # as) (t\<lparr>pc := Run_cycle\<rparr>))
     = Stopped (OS_error ''[Errno 28] No space left on device'')
   \<and> cycles (run ex_env_disk_full ref_float (Sched # as) (t\<lparr>pc := Run_cycle\<rparr>)) = cycles t + 1
   \<and> pc (run ex_env_disk_full ref_float (replicate 34 Sched) (main ref_float)) = Run_cycle
   \<and> pc (run ex_env_disk_full ref_float (replicate 35 Sched @ as) (main ref_float))
       = Stopped (OS_error ''[Errno 28] No space left on device'')
   \<and> cycles (run ex_env_disk_full ref_float (replicate 35 Sched @ as) (main ref_float)) = 1"
proof -
  let ?e = "OS_error ''[Errno 28] No space left on device''"
  have stop: "pc (sched_step ex_env_disk_full ref_float u) = Stopped ?e
      \<and> cycles (sched_step ex_env_disk_full ref_float u) = cycles u + 1" if "pc u = Run_cycle" for u :: "dec sched"
  proof -
    from ex_disk_full_raises [of "globals u"] obtain g where
      "run_cycle ex_env_disk_full ref_float (globals u) = Some (Raised ?e g)" by blast
    with that show ?thesis by (simp add: sched_step_def Let_def)
  qed
  have a: "pc (run ex_env_disk_full ref_float (Sched # as) (t\<lparr>pc := Run_cycle\<rparr>)) = Stopped ?e
     \<and> cycles (run ex_env_disk_full ref_float (Sched # as) (t\<lparr>pc := Run_cycle\<rparr>)) = cycles t + 1"
    using stop [of "t\<lparr>pc := Run_cycle\<rparr>"]
      stopped_forever [of "sched_step ex_env_disk_full ref_float (t\<lparr>pc := Run_cycle\<rparr>)" ?e ex_env_disk_full ref_float as]
    by simp
  let ?t33 = "run ex_env_disk_full ref_float (replicate 33 Sched) (main ref_float)"
  note m = main_countdown [of ex_env_disk_full ref_float]
  have "replicate 34 Sched = replicate 33 Sched @ [Sched :: dec action]"
    by (simp add: numeral_eq_Suc replicate_append_same)
  then have t34: "run ex_env_disk_full ref_float (replicate 34 Sched) (main ref_float)
      = sched_step ex_env_disk_full ref_float ?t33"
    by (simp only: run_append run_Cons run_Nil step_Sched)
  have b: "pc (sched_step ex_env_disk_full ref_float ?t33) = Run_cycle"
    "cycles (sched_step ex_env_disk_full ref_float ?t33) = 0"
    using m by (simp_all add: sched_step_def Let_def)
  have "replicate 35 Sched @ as = replicate 34 Sched @ Sched # as" for as :: "dec action list"
    by (simp add: numeral_eq_Suc replicate_append_same)
  then have t35: "run ex_env_disk_full ref_float (replicate 35 Sched @ as) (main ref_float)
      = run ex_env_disk_full ref_float as
          (sched_step ex_env_disk_full ref_float (sched_step ex_env_disk_full ref_float ?t33))"
    by (simp only: run_append run_Cons run_Nil step_Sched t34)
  from stop [OF b(1)] b(2)
    stopped_forever [of "sched_step ex_env_disk_full ref_float (sched_step ex_env_disk_full ref_float ?t33)"
      ?e ex_env_disk_full ref_float as]
  have c: "pc (run ex_env_disk_full ref_float (replicate 35 Sched @ as) (main ref_float)) = Stopped ?e
    \<and> cycles (run ex_env_disk_full ref_float (replicate 35 Sched @ as) (main ref_float)) = 1"
    unfolding t35 by simp
  from a b(1) c show ?thesis unfolding t34 by simp
qed

lemma run_cycle_next_refresh:
  assumes "run_cycle env fo s = Some (Completed s')"
  shows "next_refresh_in (status s') = Some REFRESH_INTERVAL"
  using assms
  by (auto simp: run_cycle_def Let_def next_refresh_finish_cycle split: option.splits sum.splits)

lemma status_add_log [simp]: "status (add_log m s) = status s"
  by (simp add: add_log_def Let_def publish_event_def)

lemma run_pause:
  "refresh_paused (globals (run env fo pause t))"
  "next_refresh_in (status (globals (run env fo pause t))) = None"
  "pc (run env fo pause t) = pc t" "paused (run env fo pause t) = paused t"
  "cycles (run env fo pause t) = cycles t"
  by (simp_all add: pause_def handler_step_def status_update_status set_key_def)

lemma run_resume:
  "\<not> refresh_paused (globals (run env fo resume t))"
  "next_refresh_in (status (globals (run env fo resume t))) = Some REFRESH_INTERVAL"
  by (simp_all add: resume_def handler_step_def status_update_status set_key_def)

text \<open>
  Claim C7, as amended. While the pause flag stays set (no resume among the actions),
  at most one more cycle starts, from any state and under any interleaving of handler
  actions with scheduler steps; and once the scheduler is holding (it stands before a
  poll of the flag), no cycle starts at all and it stays holding. A poll that finds
  the flag set, at the loop head or in a countdown turn, leads to \<open>next_refresh_in\<close>
  being set to null and back to the loop head without a cycle. The handler \<^verbatim>\<open>pause\<close>
  sets the flag and \<open>next_refresh_in\<close> to null; \<^verbatim>\<open>resume\<close> clears the flag and sets
  \<open>next_refresh_in\<close> to the interval; and a loop head that finds the flag clear, with no
  trigger pending, starts the countdown at the full \<open>REFRESH_INTERVAL\<close>.
\<close>

theorem pause_holds_cycles:
  "(refresh_paused (globals t) \<and> Set_paused False \<notin> set as \<longrightarrow>
      cycles (run env fo as t) \<le> cycles t + 1
      \<and> (holding t \<longrightarrow> cycles (run env fo as t) = cycles t \<and> holding (run env fo as t))
      \<and> refresh_paused (globals (run env fo as t)))
   \<and> (pc t = Loop_head \<and> refresh_paused (globals t) \<longrightarrow>
        pc (run env fo [Sched, Sched] t) = Paused_sleep
        \<and> next_refresh_in (status (globals (run env fo [Sched, Sched] t))) = None)
   \<and> (pc t = Count_check_paused i \<and> refresh_paused (globals t) \<longrightarrow>
        pc (run env fo [Sched, Sched, Sched] t) = Loop_head
        \<and> next_refresh_in (status (globals (run env fo [Sched, Sched, Sched] t))) = None)
   \<and> refresh_paused (globals (run env fo pause t))
   \<and> next_refresh_in (status (globals (run env fo pause t))) = None
   \<and> \<not> refresh_paused (globals (run env fo resume t))
   \<and> next_refresh_in (status (globals (run env fo resume t))) = Some REFRESH_INTERVAL
   \<and> (pc t = Loop_head \<and> \<not> refresh_paused (globals t) \<and> \<not> refresh_now (globals t) \<longrightarrow>
        pc (run env fo [Sched, Sched] t) = Count_check_paused REFRESH_INTERVAL)"
proof (intro conjI impI)
  assume a: "refresh_paused (globals t) \<and> Set_paused False \<notin> set as"
  then have d: "cycles (run env fo as t) + due (run env fo as t) \<le> cycles t + due t"
    and m: "cycles t \<le> cycles (run env fo as t)"
    and p: "refresh_paused (globals (run env fo as t))"
    using run_due [of t as env fo] by simp_all
  from d show "cycles (run env fo as t) \<le> cycles t + 1" by (simp add: due_def split: if_splits)
  from p show "refresh_paused (globals (run env fo as t))" .
  assume h: "holding t"
  with d m show "cycles (run env fo as t) = cycles t" by (simp add: due_def)
  from h d m show "holding (run env fo as t)" by (simp add: due_def split: if_splits)
next
  assume "pc t = Loop_head \<and> refresh_paused (globals t)"
  then show "pc (run env fo [Sched, Sched] t) = Paused_sleep"
    and "next_refresh_in (status (globals (run env fo [Sched, Sched] t))) = None"
    by (simp_all add: sched_step_def Let_def set_next_refresh_in_def)
next
  assume "pc t = Count_check_paused i \<and> refresh_paused (globals t)"
  then show "pc (run env fo [Sched, Sched, Sched] t) = Loop_head"
    and "next_refresh_in (status (globals (run env fo [Sched, Sched, Sched] t))) = None"
    by (simp_all add: sched_step_def Let_def set_next_refresh_in_def)
next
  assume "pc t = Loop_head \<and> \<not> refresh_paused (globals t) \<and> \<not> refresh_now (globals t)"
  then show "pc (run env fo [Sched, Sched] t) = Count_check_paused REFRESH_INTERVAL"
    by (simp add: sched_step_def Let_def countdown_from_def REFRESH_INTERVAL_def)
qed (simp_all add: run_pause run_resume)


lemmas sched_eval =
  sched_step_def Let_def main_def initial_state_def REFRESH_INTERVAL_def countdown_from_def
  handler_step_def pause_def resume_def trigger_now_def set_next_refresh_in_def sleep_def

lemma ex_paused_at_head_eval:
  "pc ex_paused_at_head = Loop_head" "refresh_paused (globals ex_paused_at_head)"
  "cycles ex_paused_at_head = 0"
  by (simp_all add: ex_paused_at_head_def sched_eval)

lemma ex_paused_in_countdown_eval:
  "pc ex_paused_in_countdown = Count_check_paused 10" "refresh_paused (globals ex_paused_in_countdown)"
  by (simp_all add: ex_paused_in_countdown_def sched_eval)

lemma ex_resumed_eval:
  "pc ex_resumed = Loop_head" "\<not> refresh_paused (globals ex_resumed)"
  "\<not> refresh_now (globals ex_resumed)"
  by (simp_all add: ex_resumed_def sched_eval)


text \<open>
  The amended claim C7 on runs from the start: a paused scheduler starts no cycle in
  twelve further steps with a trigger request among them; a pause seen in the countdown
  leads back to the loop head; after a resume the countdown starts at 10.
\<close>

theorem pause_holds_cycles_witness:
  "refresh_paused (globals ex_paused_at_head)
   \<and> Set_paused False \<notin> set (replicate 7 Sched @ trigger_now @ replicate 5 (Sched :: dec action))
   \<and> holding ex_paused_at_head
   \<and> cycles (run ex_env ref_float (replicate 7 Sched @ trigger_now @ replicate 5 Sched)
        ex_paused_at_head) = 0
   \<and> pc ex_paused_at_head = Loop_head
   \<and> next_refresh_in (status (globals (run ex_env ref_float [Sched, Sched] ex_paused_at_head))) = None
   \<and> pc ex_paused_in_countdown = Count_check_paused 10
   \<and> refresh_paused (globals ex_paused_in_countdown)
   \<and> pc (run ex_env ref_float [Sched, Sched, Sched] ex_paused_in_countdown) = Loop_head
   \<and> pc ex_resumed = Loop_head
   \<and> \<not> refresh_paused (globals ex_resumed)
   \<and> \<not> refresh_now (globals ex_resumed)
   \<and> pc (run ex_env ref_float [Sched, Sched] ex_resumed) = Count_check_paused 10"
proof -
  have n: "Set_paused False \<notin> set (replicate 7 Sched @ trigger_now @ replicate 5 (Sched :: dec action))"
    by (simp add: trigger_now_def)
  have h: "holding ex_paused_at_head"
    by (simp add: holding_def ex_paused_at_head_eval)
  from pause_holds_cycles [of ex_paused_at_head "replicate 7 Sched @ trigger_now @ replicate 5 Sched"
      ex_env ref_float 0]
    ex_paused_at_head_eval n h
  have a: "cycles (run ex_env ref_float (replicate 7 Sched @ trigger_now @ replicate 5 Sched)
        ex_paused_at_head) = 0"
    "next_refresh_in (status (globals (run ex_env ref_float [Sched, Sched] ex_paused_at_head))) = None"
    by simp_all
  from pause_holds_cycles [of ex_paused_in_countdown "[]" ex_env ref_float 10]
    ex_paused_in_countdown_eval
  have b: "pc (run ex_env ref_float [Sched, Sched, Sched] ex_paused_in_countdown) = Loop_head"
    by simp
  from pause_holds_cycles [of ex_resumed "[]" ex_env ref_float 0] ex_resumed_eval
  have c: "pc (run ex_env ref_float [Sched, Sched] ex_resumed) = Count_check_paused 10"
    by (simp add: REFRESH_INTERVAL_def)
  from n h a b c ex_paused_at_head_eval ex_paused_in_countdown_eval ex_resumed_eval
  show ?thesis by blast
qed

text \<open>
  Claim C7 as stated fails. The scheduler runs from the start through its countdown
  (33 steps); during the last second \<^verbatim>\<open>pause\<close> is requested. The loop polls the flag no
  more before the cycle: the scheduler reaches \<open>Run_cycle\<close> with the pause flag set and
  runs the cycle, after which \<open>next_refresh_in\<close> is 10, not null, with the flag still
  set.
\<close>

theorem pause_late_counterexample:
  "pc (run ex_env ref_float (replicate 33 Sched @ pause @ [Sched]) (main ref_float)) = Run_cycle
   \<and> refresh_paused (globals
        (run ex_env ref_float (replicate 33 Sched @ pause @ [Sched]) (main ref_float)))
   \<and> cycles (run ex_env ref_float (replicate 33 Sched @ pause @ [Sched]) (main ref_float)) = 0
   \<and> cycles (run ex_env ref_float (replicate 33 Sched @ pause @ [Sched, Sched]) (main ref_float)) = 1
   \<and> refresh_paused (globals
        (run ex_env ref_float (replicate 33 Sched @ pause @ [Sched, Sched]) (main ref_float)))
   \<and> next_refresh_in (status (globals
        (run ex_env ref_float (replicate 33 Sched @ pause @ [Sched, Sched]) (main ref_float))))
       = Some 10"
proof -
  let ?t33 = "run ex_env ref_float (replicate 33 Sched) (main ref_float)"
  let ?tp = "run ex_env ref_float pause ?t33"
  let ?t1 = "sched_step ex_env ref_float ?tp"
  let ?t2 = "sched_step ex_env ref_float ?t1"
  note m = main_countdown [of ex_env ref_float]
  have r1: "run ex_env ref_float (replicate 33 Sched @ pause @ [Sched]) (main ref_float) = ?t1"
    by (simp only: run_append run_Cons run_Nil step_Sched)
  have r2: "run ex_env ref_float (replicate 33 Sched @ pause @ [Sched, Sched]) (main ref_float) = ?t2"
    by (simp only: run_append run_Cons run_Nil step_Sched)
  have p: "pc ?tp = After_countdown" "\<not> paused ?tp" "refresh_paused (globals ?tp)" "cycles ?tp = 0"
    using m by (simp_all add: run_pause)
  have t1: "pc ?t1 = Run_cycle" "refresh_paused (globals ?t1)" "cycles ?t1 = 0"
    using p by (simp_all add: sched_step_def Let_def)
  obtain g where g: "run_cycle ex_env ref_float (globals ?t1) = Some (Completed g)"
    using ex_cycle_completes by blast
  have g2: "globals ?t2 = g"
    using t1(1) g by (simp add: sched_step_def Let_def)
  have t2: "cycles ?t2 = 1" "refresh_paused (globals ?t2)"
    using sched_step_Run_cycle(1) [OF t1(1), of ex_env ref_float] t1 by simp_all
  have "next_refresh_in (status (globals ?t2)) = Some 10"
    unfolding g2 using run_cycle_next_refresh [OF g] by (simp add: REFRESH_INTERVAL_def)
  with t1 t2 show ?thesis unfolding r1 r2 by simp
qed


end
